theory Spec2Isabelle
  imports Main "HOL-Library.Word"
begin

unbundle bit_operations_syntax

section \<open>The HID transport of edbg on Linux (dbg\_lin.c)\<close>

text \<open>
  The file verified here holds two algorithms: \<open>parse_hid_report_desc\<close>, which walks a
  raw HID report descriptor and extracts the report size, and \<open>dbg_dap_cmd\<close>, which
  frames one CMSIS-DAP request, sends it and validates the response. Bytes are
  \<open>uint8_t\<close>, the three accumulators of the parser are \<open>uint32_t\<close>, every other
  number of the source is a C \<open>int\<close>, modelled as \<open>int\<close> (indices, which never go
  negative, as \<open>nat\<close>).
\<close>

type_synonym u8 = "8 word"
type_synonym u32 = "32 word"

subsection \<open>Memory\<close>

text \<open>
  A C buffer is the list of its bytes. The source indexes its buffers without any check;
  an access outside the object is undefined behaviour in C, and is a fault of its own in
  the model (\<open>None\<close> here, an error value in the callers).
\<close>

definition read_byte :: "u8 list \<Rightarrow> nat \<Rightarrow> u8 option" where
  "read_byte data k = (if k < length data then Some (data ! k) else None)"

subsection \<open>The descriptor parser\<close>

text \<open>
  Modelled from the spec: \<open>error_exit\<close>, declared in edbg.h, which is not part of the
  sources at hand, ends the operation with a fatal error that is reported to the caller;
  the two calls in the parser are the errors \<open>SizeMismatch\<close> and \<open>UnsupportedSize\<close>
  (the latter carries the size that the message prints). \<open>OutOfBounds\<close> is not an error
  of the source: it stands for a read outside the buffer, at the index it carries.
\<close>

datatype parse_error = OutOfBounds nat | SizeMismatch | UnsupportedSize u32

text \<open>
  The locals \<open>count\<close>, \<open>input\<close> and \<open>output\<close> of the parser (the last one is
  \<open>output_v\<close> here, \<open>output\<close> being a keyword). \<open>reads\<close> is not a variable of the
  source: it records, in order, every index at which \<open>data\<close> has been read, so that
  statements about the accesses of the parser can be made.
\<close>

record parse_state =
  count :: u32
  input :: u32
  output_v :: u32
  reads :: "nat list"

definition parse_init :: parse_state where
  "parse_init = \<lparr>count = 0, input = 0, output_v = 0, reads = []\<rparr>"

text \<open>The three fields of an item prefix, and the payload size with code 3 meaning 4.\<close>

definition bTag_of :: "int \<Rightarrow> int" where
  "bTag_of prefix = drop_bit 4 prefix AND 0x0f"

definition bType_of :: "int \<Rightarrow> int" where
  "bType_of prefix = drop_bit 2 prefix AND 0x03"

definition bSize_of :: "int \<Rightarrow> int" where
  "bSize_of prefix = (let bSize = prefix AND 0x03 in if 3 = bSize then 4 else bSize)"

text \<open>
  The inner loop \<open>for (int j = 0; j < bSize; j++) count |= (data[i + j] << (j * 8))\<close>.
  The byte is promoted to \<open>int\<close>, shifted, and converted to \<open>uint32_t\<close> by the
  compound assignment: on a two's complement machine that is the byte shifted inside a
  32-bit word.
\<close>

function report_count_loop ::
  "u8 list \<Rightarrow> nat \<Rightarrow> int \<Rightarrow> nat \<Rightarrow> parse_state \<Rightarrow> parse_error + parse_state" where
  "report_count_loop data i bSize j st =
     (if int j < bSize then
        (case read_byte data (i + j) of
           None \<Rightarrow> Inl (OutOfBounds (i + j))
         | Some b \<Rightarrow>
             report_count_loop data i bSize (j + 1)
               (st\<lparr>count := count st OR push_bit (j * 8) (ucast b),
                   reads := reads st @ [i + j]\<rparr>))
      else Inr st)"
  by pat_completeness auto
termination
  by (relation "measure (\<lambda>(data, i, bSize, j, st). nat (bSize - int j))") auto

declare report_count_loop.simps [simp del]

text \<open>The dispatch on type and tag in the body of the outer loop.\<close>

definition item_step ::
  "u8 list \<Rightarrow> nat \<Rightarrow> int \<Rightarrow> int \<Rightarrow> int \<Rightarrow> parse_state \<Rightarrow> parse_error + parse_state" where
  "item_step data i bTag bType bSize st =
     (if 1 = bType \<and> 9 = bTag then
        report_count_loop data i bSize 0 (st\<lparr>count := 0\<rparr>)
      else if 0 = bType \<and> 8 = bTag then Inr (st\<lparr>input := count st\<rparr>)
      else if 0 = bType \<and> 9 = bTag then Inr (st\<lparr>output_v := count st\<rparr>)
      else Inr st)"

text \<open>The outer loop \<open>for (int i = 0; i < size; )\<close>; the parameter \<open>size\<close> is \<open>sz\<close>.\<close>

function parse_loop ::
  "u8 list \<Rightarrow> int \<Rightarrow> nat \<Rightarrow> parse_state \<Rightarrow> parse_error + parse_state" where
  "parse_loop data sz i st =
     (if int i < sz then
        (case read_byte data i of
           None \<Rightarrow> Inl (OutOfBounds i)
         | Some b \<Rightarrow>
             (let prefix = uint b;
                  bTag = bTag_of prefix;
                  bType = bType_of prefix;
                  bSize = bSize_of prefix
              in case item_step data (i + 1) bTag bType bSize
                        (st\<lparr>reads := reads st @ [i]\<rparr>) of
                   Inl e \<Rightarrow> Inl e
                 | Inr st' \<Rightarrow> parse_loop data sz (i + 1 + nat bSize) st'))
      else Inr st)"
  by pat_completeness auto
termination
  by (relation "measure (\<lambda>(data, sz, i, st). nat (sz - int i))") auto

declare parse_loop.simps [simp del]

text \<open>The checks after the loop, and the function as a whole.\<close>

definition validate :: "parse_state \<Rightarrow> parse_error + int" where
  "validate st =
     (if input st \<noteq> output_v st then Inl SizeMismatch
      else if 64 \<noteq> input st \<and> 512 \<noteq> input st \<and> 1024 \<noteq> input st
        then Inl (UnsupportedSize (input st))
      else Inr (sint (input st)))"

definition parse_hid_report_desc :: "u8 list \<Rightarrow> int \<Rightarrow> parse_error + int" where
  "parse_hid_report_desc data sz =
     (case parse_loop data sz 0 parse_init of
        Inl e \<Rightarrow> Inl e
      | Inr st \<Rightarrow> validate st)"

subsection \<open>The parser as the specification words it\<close>

text \<open>
  The specification describes the parser as a decoder of items followed by a dispatch on
  each item and a validation. The definitions of this subsection follow those words, not
  the code, and are compared with the code below. A header byte is split as the HID
  standard does: the 4-bit tag on top, then the 2-bit type, then the 2-bit size code.
\<close>

datatype item = Item (tag: nat) (itype: nat) (val: nat)

definition spec_payload_len :: "u8 \<Rightarrow> nat" where
  "spec_payload_len h = (let c = unat h mod 4 in if c = 3 then 4 else c)"

fun le_value :: "u8 list \<Rightarrow> nat" where
  "le_value [] = 0"
| "le_value (b # bs) = unat b + 256 * le_value bs"

function spec_items :: "u8 list \<Rightarrow> item list" where
  "spec_items [] = []"
| "spec_items (h # rest) =
     Item (unat h div 16) (unat h div 4 mod 4) (le_value (take (spec_payload_len h) rest))
       # spec_items (drop (spec_payload_len h) rest)"
  by pat_completeness auto
termination
  by (relation "measure length") auto

text \<open>The running report count, the input size and the output size.\<close>

record spec_state =
  cur_count :: nat
  in_size :: nat
  out_size :: nat

definition spec_dispatch :: "item \<Rightarrow> spec_state \<Rightarrow> spec_state" where
  "spec_dispatch it s =
     (if itype it = 1 \<and> tag it = 9 then s\<lparr>cur_count := val it\<rparr>
      else if itype it = 0 \<and> tag it = 8 then s\<lparr>in_size := cur_count s\<rparr>
      else if itype it = 0 \<and> tag it = 9 then s\<lparr>out_size := cur_count s\<rparr>
      else s)"

definition spec_resolve :: "u8 list \<Rightarrow> spec_state" where
  "spec_resolve ds =
     fold spec_dispatch (spec_items ds) \<lparr>cur_count = 0, in_size = 0, out_size = 0\<rparr>"

definition spec_parse :: "u8 list \<Rightarrow> parse_error + int" where
  "spec_parse ds =
     (let r = spec_resolve ds in
      if in_size r \<noteq> out_size r then Inl SizeMismatch
      else if in_size r \<notin> {64, 512, 1024} then Inl (UnsupportedSize (of_nat (in_size r)))
      else Inr (int (in_size r)))"

text \<open>
  A descriptor is well formed when the payload of every item lies inside it: no item is
  cut short by the end of the byte sequence.
\<close>

function wf_desc :: "u8 list \<Rightarrow> bool" where
  "wf_desc [] = True"
| "wf_desc (h # rest) =
     (spec_payload_len h \<le> length rest \<and> wf_desc (drop (spec_payload_len h) rest))"
  by pat_completeness auto
termination
  by (relation "measure length") auto

subsection \<open>The framed transport\<close>

text \<open>
  The three static variables of the file. \<open>hid_buffer\<close> has \<open>DBG_MAX_EP_SIZE + 1\<close>
  bytes; the constant is defined in dbg.h, which is not at hand, so the length of the
  list stands for it.
\<close>

record session =
  debugger_fd :: int
  hid_buffer :: "u8 list"
  report_size :: int

text \<open>
  \<open>memset\<close> and \<open>memcpy\<close> of the C library on byte lists. The length is a
  \<open>size_t\<close>: a negative \<open>int\<close> converts to a huge count, which leaves every buffer,
  as does a count beyond the end of the object. Both are faults (\<open>None\<close>).
  \<open>memcpy dst doff src soff n\<close> is \<open>memcpy(&dst[doff], &src[soff], n)\<close>.
\<close>

definition memset :: "u8 list \<Rightarrow> u8 \<Rightarrow> int \<Rightarrow> u8 list option" where
  "memset buf c n =
     (if 0 \<le> n \<and> n \<le> int (length buf)
      then Some (replicate (nat n) c @ drop (nat n) buf) else None)"

definition memcpy :: "u8 list \<Rightarrow> nat \<Rightarrow> u8 list \<Rightarrow> nat \<Rightarrow> int \<Rightarrow> u8 list option" where
  "memcpy dst doff src soff n =
     (if 0 \<le> n \<and> doff + nat n \<le> length dst \<and> soff + nat n \<le> length src
      then Some (take doff dst @ take (nat n) (drop soff src) @ drop (doff + nat n) dst)
      else None)"

definition write_byte :: "u8 list \<Rightarrow> nat \<Rightarrow> u8 \<Rightarrow> u8 list option" where
  "write_byte buf k v = (if k < length buf then Some (buf[k := v]) else None)"

text \<open>
  What the device does during one call: \<open>write_res\<close> is the value returned by
  \<open>write\<close> (negative on failure), \<open>read_back\<close> is \<open>None\<close> when \<open>read\<close> fails and
  otherwise the bytes that the device has ready. \<open>read\<close> stores at most the requested
  number of them at the start of the buffer and returns how many it stored.
\<close>

record io =
  write_res :: int
  read_back :: "u8 list option"

definition sys_read :: "u8 list option \<Rightarrow> u8 list \<Rightarrow> int \<Rightarrow> int \<times> u8 list" where
  "sys_read dev buf n =
     (case dev of
        None \<Rightarrow> (- 1, buf)
      | Some bs \<Rightarrow>
          (let got = take (nat n) bs
           in (int (length got), got @ drop (length got) buf)))"

text \<open>
  Modelled from the spec: \<open>perror_exit\<close>, \<open>error_exit\<close> and \<open>check\<close>, declared in
  edbg.h, which is not part of the sources at hand, end the operation with a fatal error
  reported to the caller (write failure, read failure, empty response, invalid response
  naming the expected and the received identifier); \<open>check (res, ...)\<close> does so when
  \<open>res\<close> is zero. \<open>BufferFault\<close> is not an error of the source: it stands for an
  access outside a buffer.
\<close>

datatype exchange_error =
  BufferFault | WriteFailed | ReadFailed | EmptyResponse | InvalidResponse u8 u8

text \<open>
  The first three statements after the declarations of \<open>dbg_dap_cmd\<close>: the buffer after
  \<open>memset\<close>, the report ID and \<open>memcpy\<close>.
\<close>

definition build_frame :: "session \<Rightarrow> u8 list \<Rightarrow> int \<Rightarrow> u8 list option" where
  "build_frame s data req_size =
     (case memset (hid_buffer s) 0xff (report_size s + 1) of
        None \<Rightarrow> None
      | Some b1 \<Rightarrow>
          (case write_byte b1 0 0x00 of
             None \<Rightarrow> None
           | Some b2 \<Rightarrow> memcpy b2 1 data 0 req_size))"

text \<open>
  The result of a call that returns: the bytes handed to \<open>write\<close>, the value returned,
  the caller's array \<open>data\<close> and the session afterwards.
\<close>

record exchange_result =
  frame :: "u8 list"
  ret :: int
  data_out :: "u8 list"
  session_out :: session

definition dbg_dap_cmd ::
  "session \<Rightarrow> io \<Rightarrow> u8 list \<Rightarrow> int \<Rightarrow> int \<Rightarrow> exchange_error + exchange_result" where
  "dbg_dap_cmd s dev data resp_size req_size =
     (case read_byte data 0 of
        None \<Rightarrow> Inl BufferFault
      | Some cmd \<Rightarrow>
     (case build_frame s data req_size of
        None \<Rightarrow> Inl BufferFault
      | Some buf \<Rightarrow>
     (let sent = take (nat (report_size s + 1)) buf;
          res = write_res dev
      in if res < 0 then Inl WriteFailed
      else
     (let (res, buf') = sys_read (read_back dev) buf (report_size s + 1)
      in if res < 0 then Inl ReadFailed
      else if res = 0 then Inl EmptyResponse
      else
     (case read_byte buf' 0 of
        None \<Rightarrow> Inl BufferFault
      | Some r \<Rightarrow>
          if r \<noteq> cmd then Inl (InvalidResponse cmd r)
          else
     (let res = res - 1
      in case memcpy data 0 buf' 1 (if resp_size < res then resp_size else res) of
           None \<Rightarrow> Inl BufferFault
         | Some data' \<Rightarrow>
             Inr \<lparr>frame = sent, ret = res, data_out = data',
                  session_out = s\<lparr>hid_buffer := buf'\<rparr>\<rparr>))))))"

text \<open>
  A caller that makes several calls on one session: every call has its own request
  array, sizes and device behaviour; the first fatal error ends the process.
\<close>

record call =
  c_dev :: io
  c_data :: "u8 list"
  c_resp_size :: int
  c_req_size :: int

fun exchanges :: "session \<Rightarrow> call list \<Rightarrow> exchange_error + session" where
  "exchanges s [] = Inr s"
| "exchanges s (c # cs) =
     (case dbg_dap_cmd s (c_dev c) (c_data c) (c_resp_size c) (c_req_size c) of
        Inl e \<Rightarrow> Inl e
      | Inr r \<Rightarrow> exchanges (session_out r) cs)"

text \<open>What a caller can see of a call: the frame sent, the value returned and its array.\<close>

definition observed ::
  "exchange_error + exchange_result \<Rightarrow> exchange_error + (u8 list \<times> int \<times> u8 list)" where
  "observed x =
     (case x of Inl e \<Rightarrow> Inl e | Inr r \<Rightarrow> Inr (frame r, ret r, data_out r))"

subsection \<open>Closing\<close>

text \<open>
  The part of the operating system that \<open>close\<close> touches: the set of descriptors that
  are open, and (for the statements only) the descriptors released so far, latest first.
  \<open>close\<close> on a descriptor that is not open returns \<open>-1\<close> (EBADF) and changes nothing.
\<close>

record kernel =
  open_fds :: "int set"
  released :: "int list"

definition sys_close :: "kernel \<Rightarrow> int \<Rightarrow> int \<times> kernel" where
  "sys_close k fd =
     (if fd \<in> open_fds k
      then (0, k\<lparr>open_fds := open_fds k - {fd}, released := fd # released k\<rparr>)
      else (- 1, k))"

text \<open>
  \<open>open\<close> hands out the lowest descriptor that is not in use; among \<open>0, ..., card S\<close>
  there is one whenever the set \<open>S\<close> of descriptors in use is finite.
\<close>

definition lowest_free :: "int set \<Rightarrow> int" where
  "lowest_free S =
     (case find (\<lambda>c. c \<notin> S) (map int [0..<card S + 1]) of
        Some c \<Rightarrow> c
      | None \<Rightarrow> int (card S))"

definition sys_open :: "kernel \<Rightarrow> int \<times> kernel" where
  "sys_open k =
     (let fd = lowest_free (open_fds k)
      in (fd, k\<lparr>open_fds := insert fd (open_fds k)\<rparr>))"

definition dbg_close :: "session \<times> kernel \<Rightarrow> session \<times> kernel" where
  "dbg_close w =
     (let (s, k) = w
      in if debugger_fd s \<noteq> 0 then (s, snd (sys_close k (debugger_fd s))) else (s, k))"

text \<open>
  The static initialisers: \<open>debugger_fd = -1\<close>, a zeroed buffer (of \<open>n + 1\<close> bytes,
  \<open>n\<close> standing for \<open>DBG_MAX_EP_SIZE\<close>) and \<open>report_size = 0\<close>.
\<close>

definition session_init :: "nat \<Rightarrow> session" where
  "session_init n = \<lparr>debugger_fd = - 1, hid_buffer = replicate (n + 1) 0, report_size = 0\<rparr>"

subsection \<open>Auxiliary definitions\<close>

text \<open>
  The value that the inner loop accumulates with \<open>OR\<close> and shifts, as a function of the
  payload bytes.
\<close>

fun le_word :: "u8 list \<Rightarrow> u32" where
  "le_word [] = 0"
| "le_word (b # bs) = ucast b OR push_bit 8 (le_word bs)"

text \<open>
  The effect of one iteration of the outer loop on an item whose payload lies inside the
  buffer, in closed form; the iteration leaves the index at \<open>i + 1 + n\<close>.
\<close>

definition item_effect :: "u8 list \<Rightarrow> nat \<Rightarrow> parse_state \<Rightarrow> parse_state" where
  "item_effect data i st =
     (let h = data ! i; n = spec_payload_len h; t = unat h div 16; ty = unat h div 4 mod 4;
          st1 = st\<lparr>reads := reads st @ [i]\<rparr>
      in if ty = 1 \<and> t = 9 then
           st1\<lparr>count := le_word (take n (drop (i + 1) data)),
               reads := reads st1 @ map ((+) (i + 1)) [0..<n]\<rparr>
         else if ty = 0 \<and> t = 8 then st1\<lparr>input := count st\<rparr>
         else if ty = 0 \<and> t = 9 then st1\<lparr>output_v := count st\<rparr>
         else st1)"

text \<open>The locals of the code seen as the state of the specification.\<close>

definition abs_state :: "parse_state \<Rightarrow> spec_state" where
  "abs_state st = \<lparr>cur_count = unat (count st), in_size = unat (input st), out_size = unat (output_v st)\<rparr>"

text \<open>
  A report descriptor as CMSIS-DAP probes present it: a vendor usage page, then 64-byte
  input and output reports and a feature report.
\<close>

definition cmsis_dap_desc :: "u8 list" where
  "cmsis_dap_desc =
     [0x06, 0x00, 0xFF, 0x09, 0x01, 0xA1, 0x01, 0x15, 0x00, 0x26, 0xFF, 0x00, 0x75, 0x08,
      0x95, 0x40, 0x09, 0x01, 0x81, 0x02, 0x95, 0x40, 0x09, 0x01, 0x91, 0x02,
      0x95, 0x01, 0x09, 0x01, 0xB1, 0x02, 0xC0]"

text \<open>
  The bytes that \<open>memset\<close>, the report ID and \<open>memcpy\<close> leave at the start of
  \<open>hid_buffer\<close>, and the condition under which those three statements stay inside the
  buffer (of \<open>len\<close> bytes) and inside \<open>data\<close>.
\<close>

definition frame_prefix :: "int \<Rightarrow> u8 list \<Rightarrow> int \<Rightarrow> u8 list" where
  "frame_prefix rs data req_size =
     0 # take (nat req_size) data @ replicate (nat (rs + 1) - 1 - nat req_size) 0xff"

definition frame_fits :: "nat \<Rightarrow> int \<Rightarrow> u8 list \<Rightarrow> int \<Rightarrow> bool" where
  "frame_fits len rs data req_size \<longleftrightarrow>
     0 \<le> rs + 1 \<and> rs + 1 \<le> int len \<and> 1 \<le> len \<and>
     0 \<le> req_size \<and> 1 + nat req_size \<le> len \<and> nat req_size \<le> length data"

text \<open>
  What a caller owes to \<open>dbg_dap_cmd\<close>: an array \<open>data\<close> that holds the request and
  has room for \<open>resp_size\<close> bytes, and sizes that fit the buffer of the session.
\<close>

definition call_ok :: "session \<Rightarrow> u8 list \<Rightarrow> int \<Rightarrow> int \<Rightarrow> bool" where
  "call_ok s data resp_size req_size \<longleftrightarrow>
     data \<noteq> [] \<and> frame_fits (length (hid_buffer s)) (report_size s) data req_size \<and>
     0 \<le> resp_size \<and> nat resp_size \<le> length data"

text \<open>
  A session on a probe with 64-byte reports (the buffer cut down to one frame), and a
  call with a six-byte request, used as examples.
\<close>

definition probe64 :: session where
  "probe64 = \<lparr>debugger_fd = 3, hid_buffer = replicate 65 0, report_size = 64\<rparr>"

definition long_call :: call where
  "long_call = \<lparr>c_dev = \<lparr>write_res = 65, read_back = Some [0x01, 0x77, 0x88, 0x99]\<rparr>,
                 c_data = [0x01, 0xDE, 0xAD, 0xBE, 0xEF, 0x55], c_resp_size = 3, c_req_size = 6\<rparr>"

section \<open>Properties of the parser\<close>

subsection \<open>The fields of an item prefix\<close>

lemma and3: "(p::int) AND 3 = p mod 4"
  using take_bit_eq_mask[of 2 p] by (simp add: take_bit_eq_mod mask_eq_exp_minus_1)
lemma and15: "(p::int) AND 15 = p mod 16"
  using take_bit_eq_mask[of 4 p] by (simp add: take_bit_eq_mod mask_eq_exp_minus_1)

lemma uint_unat8: "uint (h::u8) = int (unat h)"
  by simp

lemma unat8_lt: "unat (h::u8) < 256"
  using unsigned_less[of h, where 'a=nat] by simp

lemma bSize_of_int: "bSize_of (int n) = int (let c = n mod 4 in if c = 3 then 4 else c)"
proof -
  have "int n mod 4 = int (n mod 4)" by (simp add: of_nat_mod)
  then show ?thesis
    unfolding bSize_of_def Let_def and3 by simp
qed

lemma bType_of_int: "bType_of (int n) = int (n div 4 mod 4)"
proof -
  have "drop_bit 2 (int n) = int (n div 4)" by (simp add: drop_bit_eq_div of_nat_div)
  then show ?thesis
    unfolding bType_of_def and3 by (simp add: of_nat_mod)
qed

lemma bTag_of_int: "n < 256 \<Longrightarrow> bTag_of (int n) = int (n div 16)"
proof -
  assume "n < 256"
  then have "n div 16 < 16" by simp
  moreover have "drop_bit 4 (int n) = int (n div 16)" by (simp add: drop_bit_eq_div of_nat_div)
  ultimately show ?thesis
    unfolding bTag_of_def and15 by (simp add: of_nat_mod[symmetric])
qed

lemma bSize_of_spec: "bSize_of (uint h) = int (spec_payload_len h)"
  unfolding uint_unat8 bSize_of_int spec_payload_len_def ..

lemma bTag_of_spec: "bTag_of (uint (h::u8)) = int (unat h div 16)"
  unfolding uint_unat8 using unat8_lt by (rule bTag_of_int)

lemma bType_of_spec: "bType_of (uint (h::u8)) = int (unat h div 4 mod 4)"
  unfolding uint_unat8 by (rule bType_of_int)

lemma spec_payload_len_le: "spec_payload_len h \<le> 4"
  unfolding spec_payload_len_def Let_def by simp

subsection \<open>Little-endian values\<close>

lemma or_add: "(ucast (b::u8) :: u32) OR push_bit 8 w = ucast b + push_bit 8 w"
  by (rule disjunctive_add[symmetric]) (auto simp: bit_push_bit_iff bit_ucast_iff dest: bit_imp_le_length)

lemma unat_byte_cons:
  assumes "unat (w::u32) < 2 ^ 24"
  shows "unat ((ucast (b::u8) :: u32) OR push_bit 8 w) = unat b + 256 * unat w"
proof -
  have p: "unat (push_bit 8 w) = 256 * unat w"
    using assms by (simp add: push_bit_eq_mult unat_word_ariths)
  have u: "unat (ucast b :: u32) = unat b"
  proof -
    have "unat b < 2 ^ 32" using unat8_lt[of b] by simp
    then show ?thesis by (simp add: unsigned_ucast_eq take_bit_nat_eq_self)
  qed
  have "unat b + 256 * unat w < 2 ^ 32"
    using assms unat8_lt[of b] by simp
  then have "unat ((ucast b :: u32) + push_bit 8 w) = unat b + 256 * unat w"
    using p u by (simp add: unat_word_ariths)
  then show ?thesis by (simp only: or_add)
qed

lemma le_value_bound: "le_value bs < 256 ^ length bs"
proof (induction bs)
  case Nil show ?case by simp
next
  case (Cons b bs)
  have "unat b + 256 * le_value bs < 256 + 256 * le_value bs"
    using unat8_lt[of b] by simp
  also have "\<dots> = 256 * (le_value bs + 1)" by simp
  also have "\<dots> \<le> 256 * 256 ^ length bs"
    using Cons.IH by (intro mult_le_mono2) simp
  finally show ?case by simp
qed

lemma unat_le_word: "length bs \<le> 4 \<Longrightarrow> unat (le_word bs) = le_value bs"
proof (induction bs)
  case Nil show ?case by simp
next
  case (Cons b bs)
  then have ih: "unat (le_word bs) = le_value bs" and l: "length bs \<le> 3" by simp_all
  have "le_value bs < 256 ^ length bs" by (rule le_value_bound)
  also have "\<dots> \<le> (256::nat) ^ 3" using l by (intro power_increasing) simp_all
  finally have "unat (le_word bs) < 2 ^ 24" using ih by simp
  from unat_byte_cons[OF this] ih show ?case by simp
qed

subsection \<open>The inner loop\<close>

lemma read_byte_Some: "k < length data \<Longrightarrow> read_byte data k = Some (data ! k)"
  by (simp add: read_byte_def)

lemma read_byte_None: "length data \<le> k \<Longrightarrow> read_byte data k = None"
  by (simp add: read_byte_def)

lemma or_shift_step:
  "(c OR push_bit (j * 8) (ucast (b::u8))) OR push_bit (8 * (j + 1)) (w::u32)
     = c OR push_bit (8 * j) (ucast b OR push_bit 8 w)"
proof -
  have "push_bit (8 * (j + 1)) w = push_bit (8 * j) (push_bit 8 w)"
    by (simp add: push_bit_add ac_simps flip: push_bit_add)
  moreover have "j * 8 = 8 * j" by simp
  ultimately show ?thesis
    by (simp only: push_bit_or or.assoc)
qed

lemma report_count_loop_ok:
  "j \<le> nat bSize \<Longrightarrow> i + nat bSize \<le> length data \<Longrightarrow>
   report_count_loop data i bSize j st =
     Inr (st\<lparr>count := count st OR push_bit (8 * j) (le_word (take (nat bSize - j) (drop (i + j) data))),
             reads := reads st @ map ((+) i) [j..<nat bSize]\<rparr>)"
proof (induction data i bSize j st rule: report_count_loop.induct)
  case (1 data i bSize j st)
  show ?case
  proof (cases "int j < bSize")
    case False
    with "1.prems" have "nat bSize - j = 0" "[j..<nat bSize] = []" by simp_all
    with False show ?thesis by (subst report_count_loop.simps) simp
  next
    case True
    then have lt: "j < nat bSize" by simp
    with "1.prems" have inb: "i + j < length data" by simp
    let ?b = "data ! (i + j)"
    have rb: "read_byte data (i + j) = Some ?b" using inb by (rule read_byte_Some)
    have tk: "take (nat bSize - j) (drop (i + j) data)
                = ?b # take (nat bSize - (j + 1)) (drop (i + (j + 1)) data)"
    proof -
      have "drop (i + j) data = ?b # drop (Suc (i + j)) data"
        using inb by (simp add: Cons_nth_drop_Suc)
      moreover have "nat bSize - j = Suc (nat bSize - (j + 1))" using lt by simp
      ultimately show ?thesis by simp
    qed
    have up: "[j..<nat bSize] = j # [j + 1..<nat bSize]"
      using lt by (simp add: upt_conv_Cons)
    have ih: "report_count_loop data i bSize (j + 1)
               (st\<lparr>count := count st OR push_bit (j * 8) (ucast ?b), reads := reads st @ [i + j]\<rparr>)
             = Inr (st\<lparr>count := (count st OR push_bit (j * 8) (ucast ?b))
                        OR push_bit (8 * (j + 1)) (le_word (take (nat bSize - (j + 1)) (drop (i + (j + 1)) data))),
                     reads := (reads st @ [i + j]) @ map ((+) i) [j + 1..<nat bSize]\<rparr>)"
      using "1.IH"[OF True rb] lt "1.prems"(2) by simp
    show ?thesis
      apply (subst report_count_loop.simps)
      apply (simp only: True if_True rb option.case ih tk up le_word.simps or_shift_step)
      apply simp
      done
  qed
qed

lemma report_count_loop_Inr:
  "report_count_loop data i bSize j st = Inr st' \<Longrightarrow>
   input st' = input st \<and> output_v st' = output_v st \<and>
   set (reads st') \<subseteq> set (reads st) \<union> {k. i + j \<le> k \<and> k < i + nat bSize \<and> k < length data}"
proof (induction data i bSize j st rule: report_count_loop.induct)
  case (1 data i bSize j st)
  show ?case
  proof (cases "int j < bSize")
    case False
    with "1.prems" show ?thesis by (subst (asm) report_count_loop.simps) auto
  next
    case True
    show ?thesis
    proof (cases "read_byte data (i + j)")
      case None
      with True "1.prems" show ?thesis by (subst (asm) report_count_loop.simps) simp
    next
      case (Some b)
      then have inb: "i + j < length data" by (simp add: read_byte_def split: if_splits)
      from True Some "1.prems"
      have "report_count_loop data i bSize (j + 1)
              (st\<lparr>count := count st OR push_bit (j * 8) (ucast b), reads := reads st @ [i + j]\<rparr>) = Inr st'"
        by (subst (asm) report_count_loop.simps) simp
      from "1.IH"[OF True Some this] True inb show ?thesis by auto
    qed
  qed
qed

lemma report_count_loop_Inl:
  "report_count_loop data i bSize j st = Inl e \<Longrightarrow>
   \<exists>k. e = OutOfBounds k \<and> length data \<le> k \<and> k < i + nat bSize"
proof (induction data i bSize j st rule: report_count_loop.induct)
  case (1 data i bSize j st)
  show ?case
  proof (cases "int j < bSize")
    case False
    with "1.prems" show ?thesis by (subst (asm) report_count_loop.simps) auto
  next
    case True
    show ?thesis
    proof (cases "read_byte data (i + j)")
      case None
      then have "length data \<le> i + j" by (simp add: read_byte_def split: if_splits)
      moreover from True None "1.prems" have "e = OutOfBounds (i + j)"
        by (subst (asm) report_count_loop.simps) simp
      ultimately show ?thesis using True by auto
    next
      case (Some b)
      from True Some "1.prems"
      have "report_count_loop data i bSize (j + 1)
              (st\<lparr>count := count st OR push_bit (j * 8) (ucast b), reads := reads st @ [i + j]\<rparr>) = Inl e"
        by (subst (asm) report_count_loop.simps) simp
      from "1.IH"[OF True Some this] show ?thesis .
    qed
  qed
qed

lemma item_step_Inr:
  "item_step data i bTag bType bSize st = Inr st' \<Longrightarrow>
   input st' = (if 0 = bType \<and> 8 = bTag then count st else input st) \<and>
   output_v st' = (if 0 = bType \<and> 9 = bTag then count st else output_v st) \<and>
   set (reads st') \<subseteq> set (reads st) \<union> {k. i \<le> k \<and> k < i + nat bSize \<and> k < length data}"
  unfolding item_step_def
  by (auto split: if_splits dest!: report_count_loop_Inr)

lemma item_step_Inl:
  "item_step data i bTag bType bSize st = Inl e \<Longrightarrow>
   \<exists>k. e = OutOfBounds k \<and> length data \<le> k \<and> k < i + nat bSize"
  unfolding item_step_def
  by (auto split: if_splits dest!: report_count_loop_Inl)

lemma item_step_ok:
  assumes "i + nat bSize \<le> length data"
  shows "item_step data i bTag bType bSize st =
     Inr (if 1 = bType \<and> 9 = bTag then
            st\<lparr>count := le_word (take (nat bSize) (drop i data)),
               reads := reads st @ map ((+) i) [0..<nat bSize]\<rparr>
          else if 0 = bType \<and> 8 = bTag then st\<lparr>input := count st\<rparr>
          else if 0 = bType \<and> 9 = bTag then st\<lparr>output_v := count st\<rparr>
          else st)"
  unfolding item_step_def
  using report_count_loop_ok[of 0 bSize i data "st\<lparr>count := 0\<rparr>"] assms
  by simp

lemma parse_loop_step:
  assumes "int i < sz" and "i + 1 + spec_payload_len (data ! i) \<le> length data"
  shows "parse_loop data sz i st =
           parse_loop data sz (i + 1 + spec_payload_len (data ! i)) (item_effect data i st)"
proof -
  let ?h = "data ! i"
  have rb: "read_byte data i = Some ?h" using assms(2) by (simp add: read_byte_def)
  have ok: "(i + 1) + nat (bSize_of (uint ?h)) \<le> length data"
    using assms(2) by (simp add: bSize_of_spec)
  show ?thesis
    apply (subst parse_loop.simps)
    apply (simp only: assms(1) if_True rb option.case Let_def item_step_ok[OF ok])
    apply (simp add: bSize_of_spec bTag_of_spec bType_of_spec item_effect_def Let_def)
    done
qed

lemma parse_loop_exit: "\<not> int i < sz \<Longrightarrow> parse_loop data sz i st = Inr st"
  by (subst parse_loop.simps) simp

subsection \<open>The outer loop\<close>

lemma drop_header:
  "i < length ds \<Longrightarrow> drop i ds = ds ! i # drop (i + 1) ds"
  by (simp add: Cons_nth_drop_Suc)

lemma parse_loop_no_fault:
  "wf_desc (drop i ds) \<or> 4 \<le> length rest \<Longrightarrow>
   \<exists>st'. parse_loop (ds @ rest) (int (length ds)) i st = Inr st'"
proof (induction "length ds - i" arbitrary: i st rule: less_induct)
  case less
  show ?case
  proof (cases "i < length ds")
    case False
    then show ?thesis by (simp add: parse_loop_exit)
  next
    case True
    let ?h = "ds ! i" and ?data = "ds @ rest"
    let ?n = "spec_payload_len ?h"
    have h: "?data ! i = ?h" using True by (simp add: nth_append)
    have dr: "drop i ds = ?h # drop (i + 1) ds" using True by (rule drop_header)
    have fit: "i + 1 + ?n \<le> length ?data"
      using less.prems
    proof
      assume "wf_desc (drop i ds)"
      then have "?n \<le> length (drop (i + 1) ds)" by (simp add: dr)
      then show ?thesis using True by simp
    next
      assume "4 \<le> length rest"
      then show ?thesis using True spec_payload_len_le[of ?h] by simp
    qed
    have nxt: "wf_desc (drop (i + 1 + ?n) ds) \<or> 4 \<le> length rest"
      using less.prems
    proof
      assume "wf_desc (drop i ds)"
      then have "wf_desc (drop ?n (drop (i + 1) ds))" by (simp add: dr)
      then show ?thesis by (simp add: add.commute)
    qed simp
    have "length ds - (i + 1 + ?n) < length ds - i" using True by simp
    from less.hyps[OF this nxt] obtain st' where
      "parse_loop ?data (int (length ds)) (i + 1 + ?n) (item_effect ?data i st) = Inr st'"
      by blast
    moreover have "parse_loop ?data (int (length ds)) i st
        = parse_loop ?data (int (length ds)) (i + 1 + ?n) (item_effect ?data i st)"
      using parse_loop_step[of i "int (length ds)" ?data st] True fit h by simp
    ultimately show ?thesis by simp
  qed
qed

lemma abs_item_effect:
  assumes "i + 1 + spec_payload_len (ds ! i) \<le> length ds"
  shows "abs_state (item_effect (ds @ rest) i st) =
     spec_dispatch (Item (unat (ds ! i) div 16) (unat (ds ! i) div 4 mod 4)
                      (le_value (take (spec_payload_len (ds ! i)) (drop (i + 1) ds))))
       (abs_state st)"
proof -
  let ?n = "spec_payload_len (ds ! i)"
  have h: "(ds @ rest) ! i = ds ! i" using assms by (simp add: nth_append)
  have tk: "take ?n (drop (i + 1) (ds @ rest)) = take ?n (drop (i + 1) ds)"
    using assms by simp
  have "length (take ?n (drop (i + 1) ds)) \<le> 4"
    using spec_payload_len_le[of "ds ! i"] by simp
  then have v: "unat (le_word (take ?n (drop (i + 1) ds))) = le_value (take ?n (drop (i + 1) ds))"
    by (rule unat_le_word)
  show ?thesis
    unfolding item_effect_def Let_def h tk
    using v by (simp add: abs_state_def spec_dispatch_def)
qed

lemma parse_loop_last:
  assumes "int i < sz" and "sz \<le> int (i + 1 + spec_payload_len (data ! i))"
    and "i < length data"
    and "parse_loop data sz i st = Inr st'"
  shows "input st' = (if unat (data ! i) div 4 mod 4 = 0 \<and> unat (data ! i) div 16 = 8
                      then count st else input st) \<and>
         output_v st' = (if unat (data ! i) div 4 mod 4 = 0 \<and> unat (data ! i) div 16 = 9
                      then count st else output_v st)"
proof -
  let ?h = "data ! i"
  have rb: "read_byte data i = Some ?h" using assms(3) by (simp add: read_byte_def)
  let ?step = "item_step data (i + 1) (bTag_of (uint ?h)) (bType_of (uint ?h)) (bSize_of (uint ?h))
                 (st\<lparr>reads := reads st @ [i]\<rparr>)"
  from assms(4) have unf: "(case ?step of Inl e \<Rightarrow> Inl e
      | Inr st1 \<Rightarrow> parse_loop data sz (i + 1 + nat (bSize_of (uint ?h))) st1) = Inr st'"
    by (subst (asm) parse_loop.simps) (simp only: assms(1) if_True rb option.case Let_def)
  then obtain st1 where s1: "?step = Inr st1"
    and "parse_loop data sz (i + 1 + nat (bSize_of (uint ?h))) st1 = Inr st'"
    by (cases ?step) simp_all
  moreover have "\<not> int (i + 1 + nat (bSize_of (uint ?h))) < sz"
    using assms(2) by (simp add: bSize_of_spec)
  ultimately have "st' = st1" by (simp add: parse_loop_exit)
  with item_step_Inr[OF s1] show ?thesis
    by (simp add: bTag_of_spec bType_of_spec)
qed

lemma parse_loop_refines:
  "parse_loop (ds @ rest) (int (length ds)) i st = Inr st' \<Longrightarrow> i \<le> length ds \<Longrightarrow>
   in_size (fold spec_dispatch (spec_items (drop i ds)) (abs_state st)) = unat (input st') \<and>
   out_size (fold spec_dispatch (spec_items (drop i ds)) (abs_state st)) = unat (output_v st')"
proof (induction "length ds - i" arbitrary: i st rule: less_induct)
  case less
  show ?case
  proof (cases "i < length ds")
    case False
    with less.prems show ?thesis by (simp add: parse_loop_exit abs_state_def)
  next
    case True
    let ?h = "ds ! i" and ?data = "ds @ rest"
    let ?n = "spec_payload_len ?h"
    let ?it = "Item (unat ?h div 16) (unat ?h div 4 mod 4) (le_value (take ?n (drop (i + 1) ds)))"
    have h: "?data ! i = ?h" using True by (simp add: nth_append)
    have dr: "drop i ds = ?h # drop (i + 1) ds" using True by (rule drop_header)
    have items: "spec_items (drop i ds) = ?it # spec_items (drop (i + 1 + ?n) ds)"
      by (simp add: dr add.commute)
    show ?thesis
    proof (cases "i + 1 + ?n \<le> length ds")
      case fit: True
      have "parse_loop ?data (int (length ds)) i st
          = parse_loop ?data (int (length ds)) (i + 1 + ?n) (item_effect ?data i st)"
        using parse_loop_step[of i "int (length ds)" ?data st] True fit h by simp
      with less.prems(1)
      have run: "parse_loop ?data (int (length ds)) (i + 1 + ?n) (item_effect ?data i st) = Inr st'"
        by simp
      have "length ds - (i + 1 + ?n) < length ds - i" using True by simp
      from less.hyps[OF this run fit] show ?thesis
        by (simp only: items fold_simps abs_item_effect[OF fit])
    next
      case False
      then have last: "spec_items (drop i ds) = [?it]" by (simp add: items)
      have "int (length ds) \<le> int (i + 1 + spec_payload_len (?data ! i))"
        using False by (simp add: h)
      from parse_loop_last[OF _ this _ less.prems(1)] True
      show ?thesis
        by (simp add: h last abs_state_def spec_dispatch_def)
    qed
  qed
qed

lemma unat_sizes:
  "unat (w::u32) = 64 \<longleftrightarrow> w = 64" "unat w = 512 \<longleftrightarrow> w = 512" "unat w = 1024 \<longleftrightarrow> w = 1024"
proof -
  have "unat (64::u32) = 64" "unat (512::u32) = 512" "unat (1024::u32) = 1024" by simp_all
  then show "unat (w::u32) = 64 \<longleftrightarrow> w = 64" "unat w = 512 \<longleftrightarrow> w = 512" "unat w = 1024 \<longleftrightarrow> w = 1024"
    by (metis word_unat_eq_iff)+
qed


lemma validate_abs:
  assumes "in_size r = unat (input st)" and "out_size r = unat (output_v st)"
  shows "validate st =
     (if in_size r \<noteq> out_size r then Inl SizeMismatch
      else if in_size r \<notin> {64, 512, 1024} then Inl (UnsupportedSize (of_nat (in_size r)))
      else Inr (int (in_size r)))"
proof (cases "input st = output_v st")
  case False
  then have "unat (input st) \<noteq> unat (output_v st)" by (simp add: word_unat_eq_iff)
  with False show ?thesis by (simp add: validate_def assms)
next
  case True
  have s: "sint (64::u32) = 64" "sint (512::u32) = 512" "sint (1024::u32) = 1024" by simp_all
  have u: "unat (64::u32) = 64" "unat (512::u32) = 512" "unat (1024::u32) = 1024" by simp_all
  consider "input st = 64" | "input st = 512" | "input st = 1024"
    | "input st \<noteq> 64" "input st \<noteq> 512" "input st \<noteq> 1024" by blast
  then show ?thesis
  proof cases
    case 1 with True show ?thesis by (simp add: validate_def assms s u)
  next
    case 2 with True show ?thesis by (simp add: validate_def assms s u)
  next
    case 3 with True show ?thesis by (simp add: validate_def assms s u)
  next
    case 4
    then have "unat (input st) \<noteq> 64" "unat (input st) \<noteq> 512" "unat (input st) \<noteq> 1024"
      by (simp_all add: unat_sizes)
    with 4 True show ?thesis by (simp add: validate_def assms)
  qed
qed

lemma parse_loop_unfold:
  assumes "int i < sz" and "read_byte data i = Some h"
  shows "parse_loop data sz i st =
     (case item_step data (i + 1) (bTag_of (uint h)) (bType_of (uint h))
             (int (spec_payload_len h)) (st\<lparr>reads := reads st @ [i]\<rparr>) of
        Inl e \<Rightarrow> Inl e
      | Inr st1 \<Rightarrow> parse_loop data sz (i + 1 + spec_payload_len h) st1)"
  by (subst parse_loop.simps)
     (simp only: assms if_True option.case Let_def bSize_of_spec nat_int)

lemma parse_loop_fault_at_header:
  assumes "int i < sz" and "read_byte data i = None"
  shows "parse_loop data sz i st = Inl (OutOfBounds i)"
  by (subst parse_loop.simps) (simp only: assms if_True option.case)

lemma parse_loop_Inr_reads:
  "parse_loop data sz i st = Inr st' \<Longrightarrow>
   set (reads st') \<subseteq> set (reads st) \<union> {k. i \<le> k \<and> int k < sz + 4 \<and> k < length data}"
proof (induction "nat (sz - int i)" arbitrary: i st rule: less_induct)
  case less
  show ?case
  proof (cases "int i < sz")
    case False
    with less.prems show ?thesis by (simp add: parse_loop_exit)
  next
    case True
    show ?thesis
    proof (cases "read_byte data i")
      case None
      with True less.prems show ?thesis by (simp add: parse_loop_fault_at_header)
    next
      case (Some h)
      then have inb: "i < length data" by (simp add: read_byte_def split: if_splits)
      let ?n = "spec_payload_len h"
      let ?step = "item_step data (i + 1) (bTag_of (uint h)) (bType_of (uint h))
                     (int ?n) (st\<lparr>reads := reads st @ [i]\<rparr>)"
      from less.prems obtain st1 where s1: "?step = Inr st1"
        and run: "parse_loop data sz (i + 1 + ?n) st1 = Inr st'"
        unfolding parse_loop_unfold[OF True Some] by (cases ?step) simp_all
      have "nat (sz - int (i + 1 + ?n)) < nat (sz - int i)" using True by simp
      from less.hyps[OF this run]
      have a: "set (reads st') \<subseteq> set (reads st1) \<union> {k. i + 1 + ?n \<le> k \<and> int k < sz + 4 \<and> k < length data}" .
      from item_step_Inr[OF s1]
      have b: "set (reads st1) \<subseteq> set (reads st) \<union> {i} \<union> {k. i + 1 \<le> k \<and> k < i + 1 + ?n \<and> k < length data}"
        by auto
      have c: "?n \<le> 4" by (rule spec_payload_len_le)
      show ?thesis
      proof
        fix k assume "k \<in> set (reads st')"
        with a b have "k \<in> set (reads st) \<or> k = i \<or> (i + 1 \<le> k \<and> k < i + 1 + ?n \<and> k < length data)
           \<or> (i + 1 + ?n \<le> k \<and> int k < sz + 4 \<and> k < length data)" by auto
        then show "k \<in> set (reads st) \<union> {k. i \<le> k \<and> int k < sz + 4 \<and> k < length data}"
          using True inb c by auto
      qed
    qed
  qed
qed

lemma parse_loop_Inl:
  "parse_loop data sz i st = Inl e \<Longrightarrow>
   \<exists>k. e = OutOfBounds k \<and> length data \<le> k \<and> int k < sz + 4"
proof (induction "nat (sz - int i)" arbitrary: i st rule: less_induct)
  case less
  show ?case
  proof (cases "int i < sz")
    case False
    with less.prems show ?thesis by (simp add: parse_loop_exit)
  next
    case True
    show ?thesis
    proof (cases "read_byte data i")
      case None
      then have "length data \<le> i" by (simp add: read_byte_def split: if_splits)
      with True None less.prems show ?thesis by (auto simp: parse_loop_fault_at_header)
    next
      case (Some h)
      let ?n = "spec_payload_len h"
      let ?step = "item_step data (i + 1) (bTag_of (uint h)) (bType_of (uint h))
                     (int ?n) (st\<lparr>reads := reads st @ [i]\<rparr>)"
      have c: "?n \<le> 4" by (rule spec_payload_len_le)
      show ?thesis
      proof (cases ?step)
        case (Inl e')
        with less.prems have "e' = e" unfolding parse_loop_unfold[OF True Some] by simp
        with item_step_Inl[OF Inl] obtain k where
          "e = OutOfBounds k" "length data \<le> k" "k < i + 1 + ?n" by auto
        then show ?thesis using True c by auto
      next
        case (Inr st1)
        with less.prems have run: "parse_loop data sz (i + 1 + ?n) st1 = Inl e"
          unfolding parse_loop_unfold[OF True Some] by simp
        have "nat (sz - int (i + 1 + ?n)) < nat (sz - int i)" using True by simp
        from less.hyps[OF this run] show ?thesis .
      qed
    qed
  qed
qed

lemma parse_refines:
  assumes "wf_desc ds \<or> 4 \<le> length rest"
  shows "parse_hid_report_desc (ds @ rest) (int (length ds)) = spec_parse ds"
proof -
  from assms have "wf_desc (drop 0 ds) \<or> 4 \<le> length rest" by simp
  from parse_loop_no_fault[OF this] obtain st' where
    run: "parse_loop (ds @ rest) (int (length ds)) 0 parse_init = Inr st'" by blast
  have "abs_state parse_init = \<lparr>cur_count = 0, in_size = 0, out_size = 0\<rparr>"
    by (simp add: abs_state_def parse_init_def)
  with parse_loop_refines[OF run] have
    "in_size (spec_resolve ds) = unat (input st')" "out_size (spec_resolve ds) = unat (output_v st')"
    by (simp_all add: spec_resolve_def)
  from validate_abs[OF this] show ?thesis
    by (simp add: parse_hid_report_desc_def run spec_parse_def Let_def)
qed

lemmas spec_eval = spec_payload_len_def spec_resolve_def spec_dispatch_def

subsection \<open>Results of the parser\<close>

text \<open>
  C1. For every descriptor whose Report Count, Input and Output items resolve, in the
  reading of the specification, to one common size among 64, 512 and 1024, the parser
  returns that size. The descriptor \<open>ds\<close> is the first \<open>length ds\<close> bytes of the
  buffer handed to the parser; it is well formed, or the buffer extends four bytes beyond
  it, so that no read leaves the buffer.
\<close>

theorem parse_returns_common_size:
  assumes "wf_desc ds \<or> 4 \<le> length rest"
    and "in_size (spec_resolve ds) = v" and "out_size (spec_resolve ds) = v"
    and "v \<in> {64, 512, 1024}"
  shows "parse_hid_report_desc (ds @ rest) (int (length ds)) = Inr (int v)"
  using assms(2-4) unfolding parse_refines[OF assms(1)] spec_parse_def Let_def
  by auto

theorem parse_returns_common_size_witness:
  "wf_desc cmsis_dap_desc \<and> in_size (spec_resolve cmsis_dap_desc) = 64 \<and>
   out_size (spec_resolve cmsis_dap_desc) = 64 \<and>
   parse_hid_report_desc (cmsis_dap_desc @ []) (int (length cmsis_dap_desc)) = Inr 64"
proof -
  have a: "wf_desc cmsis_dap_desc" by (simp add: cmsis_dap_desc_def spec_eval)
  have b: "in_size (spec_resolve cmsis_dap_desc) = 64" by (simp add: cmsis_dap_desc_def spec_eval)
  have c: "out_size (spec_resolve cmsis_dap_desc) = 64" by (simp add: cmsis_dap_desc_def spec_eval)
  from parse_returns_common_size[OF disjI1[OF a] b c, of "[]"] a b c
  show ?thesis by simp
qed

text \<open>
  C3. The parser fails exactly when the validation after the pass is violated: when the
  resolved input and output sizes differ it fails with the size-mismatch error, when
  they agree on a size other than 64, 512 and 1024 it fails with the unsupported-size
  error carrying that size, and it fails in no other case (the reads staying inside the
  buffer as in C1).
\<close>

theorem parse_fails_iff_validation_fails:
  assumes "wf_desc ds \<or> 4 \<le> length rest"
  shows "(in_size (spec_resolve ds) \<noteq> out_size (spec_resolve ds) \<longrightarrow>
            parse_hid_report_desc (ds @ rest) (int (length ds)) = Inl SizeMismatch) \<and>
         (in_size (spec_resolve ds) = out_size (spec_resolve ds) \<and>
          in_size (spec_resolve ds) \<notin> {64, 512, 1024} \<longrightarrow>
            parse_hid_report_desc (ds @ rest) (int (length ds))
              = Inl (UnsupportedSize (of_nat (in_size (spec_resolve ds))))) \<and>
         ((\<exists>e. parse_hid_report_desc (ds @ rest) (int (length ds)) = Inl e) \<longleftrightarrow>
            in_size (spec_resolve ds) \<noteq> out_size (spec_resolve ds) \<or>
            in_size (spec_resolve ds) \<notin> {64, 512, 1024})"
  unfolding parse_refines[OF assms] spec_parse_def Let_def
  by auto

theorem parse_fails_iff_validation_fails_witness:
  "parse_hid_report_desc ([0x95, 0x40, 0x81, 0x02, 0x95, 0x20, 0x91, 0x02] @ [])
      (int (length [0x95, 0x40, 0x81, 0x02, 0x95, 0x20, 0x91, 0x02 :: u8])) = Inl SizeMismatch \<and>
   parse_hid_report_desc ([0x96, 0x00, 0x08, 0x81, 0x02, 0x91, 0x02] @ [])
      (int (length [0x96, 0x00, 0x08, 0x81, 0x02, 0x91, 0x02 :: u8])) = Inl (UnsupportedSize 2048)"
proof -
  let ?a = "[0x95, 0x40, 0x81, 0x02, 0x95, 0x20, 0x91, 0x02 :: u8]"
  let ?b = "[0x96, 0x00, 0x08, 0x81, 0x02, 0x91, 0x02 :: u8]"
  have wa: "wf_desc ?a \<or> 4 \<le> length ([] :: u8 list)" by (simp add: spec_eval)
  have wb: "wf_desc ?b \<or> 4 \<le> length ([] :: u8 list)" by (simp add: spec_eval)
  have ra: "in_size (spec_resolve ?a) \<noteq> out_size (spec_resolve ?a)" by (simp add: spec_eval)
  have rb: "in_size (spec_resolve ?b) = 2048" "out_size (spec_resolve ?b) = 2048"
    by (simp_all add: spec_eval)
  from parse_fails_iff_validation_fails[OF wa] ra
  have "parse_hid_report_desc (?a @ []) (int (length ?a)) = Inl SizeMismatch" by blast
  moreover from parse_fails_iff_validation_fails[OF wb] rb
  have "parse_hid_report_desc (?b @ []) (int (length ?b)) = Inl (UnsupportedSize 2048)" by simp
  ultimately show ?thesis by blast
qed

lemmas parse_eval = parse_hid_report_desc_def parse_init_def item_step_def bTag_of_def
  bType_of_def bSize_of_def read_byte_def validate_def parse_loop.simps report_count_loop.simps

lemma item_consumed:
  assumes "int i < sz"
    and "n = (if unat (data ! i) mod 4 = 3 then 4 else unat (data ! i) mod 4)"
    and "i + 1 + n \<le> length data"
  shows "bSize_of (uint (data ! i)) = int n \<and>
         (\<exists>st1. item_step data (i + 1) (bTag_of (uint (data ! i))) (bType_of (uint (data ! i)))
                  (bSize_of (uint (data ! i))) (st\<lparr>reads := reads st @ [i]\<rparr>) = Inr st1 \<and>
                parse_loop data sz i st = parse_loop data sz (i + 1 + n) st1 \<and>
                (bType_of (uint (data ! i)) = 1 \<and> bTag_of (uint (data ! i)) = 9 \<longrightarrow>
                   unat (count st1) = le_value (take n (drop (i + 1) data)) \<and>
                   reads st1 = reads st @ [i..<i + 1 + n]))"
proof -
  let ?h = "data ! i"
  have n: "n = spec_payload_len ?h" using assms(2) by (simp add: spec_payload_len_def)
  have bs: "bSize_of (uint ?h) = int n" by (simp add: bSize_of_spec n)
  have inb: "i < length data" using assms(3) by simp
  have fit: "(i + 1) + nat (bSize_of (uint ?h)) \<le> length data" using assms(3) by (simp add: bs)
  let ?st1 = "item_effect data i st"
  have step: "item_step data (i + 1) (bTag_of (uint ?h)) (bType_of (uint ?h))
                  (bSize_of (uint ?h)) (st\<lparr>reads := reads st @ [i]\<rparr>) = Inr ?st1"
    unfolding item_step_ok[OF fit]
    by (simp add: bSize_of_spec bTag_of_spec bType_of_spec item_effect_def Let_def)
  have loop: "parse_loop data sz i st = parse_loop data sz (i + 1 + n) ?st1"
    using parse_loop_step[OF assms(1), of data st] assms(3) by (simp add: n)
  have val: "unat (count ?st1) = le_value (take n (drop (i + 1) data)) \<and>
             reads ?st1 = reads st @ [i..<i + 1 + n]"
    if "bType_of (uint ?h) = 1 \<and> bTag_of (uint ?h) = 9"
  proof -
    from that have rc: "unat ?h div 4 mod 4 = 1 \<and> unat ?h div 16 = 9"
      by (simp add: bTag_of_spec bType_of_spec)
    have "length (take n (drop (i + 1) data)) \<le> 4"
      using spec_payload_len_le[of ?h] by (simp add: n)
    from unat_le_word[OF this] have v: "unat (le_word (take n (drop (Suc i) data))) = le_value (take n (drop (Suc i) data))"
      by simp
    have "(+) (Suc i) = (\<lambda>k. k + Suc i)" by (rule ext) simp
    then have "map ((+) (Suc i)) [0..<n] = [Suc i..<n + Suc i]"
      by (simp only: map_add_upt)
    moreover have "n + Suc i = i + 1 + n" by simp
    moreover have "[i..<i + 1 + n] = i # [Suc i..<i + 1 + n]"
      by (rule upt_conv_Cons) simp
    ultimately have r: "[i] @ map ((+) (Suc i)) [0..<n] = [i..<i + 1 + n]"
      by (simp only: append_Cons append_Nil)
    show ?thesis
      using rc v r by (simp add: item_effect_def Let_def n[symmetric] del: upt_Suc)
  qed
  from bs step loop val show ?thesis by blast
qed

lemma single_item_descriptor:
  assumes "length p = spec_payload_len h"
  shows "parse_hid_report_desc (h # p @ [0x80, 0x90]) (int (length p + 3)) =
     (if unat h div 4 mod 4 = 1 \<and> unat h div 16 = 9 then
        (if le_value p \<in> {64, 512, 1024} then Inr (int (le_value p))
         else Inl (UnsupportedSize (of_nat (le_value p))))
      else Inl (UnsupportedSize 0))"
proof -
  let ?ds = "h # p @ [0x80, 0x90 :: u8]"
  have z: "spec_payload_len (0x80 :: u8) = 0" "spec_payload_len (0x90 :: u8) = 0"
    by (simp_all add: spec_payload_len_def)
  have wf: "wf_desc ?ds" using assms by (simp add: z)
  have items: "spec_items ?ds =
     [Item (unat h div 16) (unat h div 4 mod 4) (le_value p), Item 8 0 0, Item 9 0 0]"
    using assms by (simp add: z)
  have len: "int (length ?ds) = int (length p + 3)" by simp
  have "parse_hid_report_desc (?ds @ []) (int (length ?ds)) = spec_parse ?ds"
    by (rule parse_refines) (simp only: wf simp_thms)
  then have "parse_hid_report_desc ?ds (int (length p + 3)) = spec_parse ?ds"
    by (simp only: append_Nil2 len)
  also have "\<dots> = (if unat h div 4 mod 4 = 1 \<and> unat h div 16 = 9 then
        (if le_value p \<in> {64, 512, 1024} then Inr (int (le_value p))
         else Inl (UnsupportedSize (of_nat (le_value p))))
      else Inl (UnsupportedSize 0))"
    unfolding spec_parse_def spec_resolve_def items
    by (auto simp: spec_dispatch_def Let_def)
  finally show ?thesis .
qed

text \<open>
  C4. An item prefix whose size code is 3 has a payload of 4 bytes, and one whose size
  code is 0, 1 or 2 a payload of that many bytes. The code computes that length; one
  iteration of the loop on such an item is the dispatch on it, after which the loop ends
  with that state or goes on at the byte after the payload; for a Report Count item the
  count is the little-endian unsigned value of exactly those bytes, read at the indices
  that follow the prefix (the value 0 when there are none), and for any other item no
  payload byte is read and the count is kept. In the whole parser: the item with its
  payload, followed by an empty Input and an empty Output item, is parsed to the size
  that the payload encodes when the item is a Report Count, and to the size 0 otherwise,
  whatever the payload bytes are.
\<close>

theorem size_code_selects_payload_length:
  assumes "int i < sz"
    and "n = (if unat (data ! i) mod 4 = 3 then 4 else unat (data ! i) mod 4)"
    and "i + 1 + n \<le> length data"
  shows "bSize_of (uint (data ! i)) = int n \<and>
         (\<exists>st1. item_step data (i + 1) (bTag_of (uint (data ! i))) (bType_of (uint (data ! i)))
                  (bSize_of (uint (data ! i))) (st\<lparr>reads := reads st @ [i]\<rparr>) = Inr st1 \<and>
                parse_loop data sz i st =
                  (if int (i + 1 + n) < sz then parse_loop data sz (i + 1 + n) st1 else Inr st1) \<and>
                (bType_of (uint (data ! i)) = 1 \<and> bTag_of (uint (data ! i)) = 9 \<longrightarrow>
                   unat (count st1) = le_value (take n (drop (i + 1) data)) \<and>
                   reads st1 = reads st @ [i..<i + 1 + n]) \<and>
                (\<not> (bType_of (uint (data ! i)) = 1 \<and> bTag_of (uint (data ! i)) = 9) \<longrightarrow>
                   count st1 = count st \<and> reads st1 = reads st @ [i])) \<and>
         parse_hid_report_desc (data ! i # take n (drop (i + 1) data) @ [0x80, 0x90]) (int (n + 3)) =
           (if bType_of (uint (data ! i)) = 1 \<and> bTag_of (uint (data ! i)) = 9 then
              (if le_value (take n (drop (i + 1) data)) \<in> {64, 512, 1024}
               then Inr (int (le_value (take n (drop (i + 1) data))))
               else Inl (UnsupportedSize (of_nat (le_value (take n (drop (i + 1) data))))))
            else Inl (UnsupportedSize 0))"
proof -
  let ?h = "data ! i"
  let ?p = "take n (drop (i + 1) data)"
  let ?rc = "bType_of (uint ?h) = 1 \<and> bTag_of (uint ?h) = 9"
  have n: "n = spec_payload_len ?h" using assms(2) by (simp add: spec_payload_len_def)
  have bs: "bSize_of (uint ?h) = int n" by (simp add: bSize_of_spec n)
  have fit: "(i + 1) + nat (bSize_of (uint ?h)) \<le> length data" using assms(3) by (simp add: bs)
  from item_consumed[OF assms, of st] obtain st1 where
    step: "item_step data (i + 1) (bTag_of (uint ?h)) (bType_of (uint ?h))
             (bSize_of (uint ?h)) (st\<lparr>reads := reads st @ [i]\<rparr>) = Inr st1"
    and loop: "parse_loop data sz i st = parse_loop data sz (i + 1 + n) st1"
    and rc: "?rc \<longrightarrow> unat (count st1) = le_value ?p \<and> reads st1 = reads st @ [i..<i + 1 + n]"
    by blast
  have loop': "parse_loop data sz i st =
                 (if int (i + 1 + n) < sz then parse_loop data sz (i + 1 + n) st1 else Inr st1)"
    using loop by (simp add: parse_loop_exit)
  have other: "count st1 = count st \<and> reads st1 = reads st @ [i]" if "\<not> ?rc"
    using step that unfolding item_step_ok[OF fit] by (auto split: if_splits)
  have lp: "length ?p = spec_payload_len ?h" using assms(3) by (simp add: n[symmetric])
  have cond: "(unat ?h div 4 mod 4 = 1 \<and> unat ?h div 16 = 9) \<longleftrightarrow> ?rc"
    by (simp add: bTag_of_spec bType_of_spec)
  have "int (length ?p + 3) = int (n + 3)" using lp n by simp
  with single_item_descriptor[OF lp] have e2e:
    "parse_hid_report_desc (?h # ?p @ [0x80, 0x90]) (int (n + 3)) =
           (if ?rc then
              (if le_value ?p \<in> {64, 512, 1024} then Inr (int (le_value ?p))
               else Inl (UnsupportedSize (of_nat (le_value ?p))))
            else Inl (UnsupportedSize 0))"
    by (simp only: cond)
  from bs step loop' rc other e2e show ?thesis by blast
qed

theorem size_code_selects_payload_length_witness:
  "bSize_of (uint (0x97 :: u8)) = 4 \<and>
   parse_loop [0x97, 0x00, 0x02, 0x00, 0x00, 0x80, 0x90] 7 0 parse_init
     = parse_loop [0x97, 0x00, 0x02, 0x00, 0x00, 0x80, 0x90] 7 5
         \<lparr>count = 512, input = 0, output_v = 0, reads = [0, 1, 2, 3, 4]\<rparr> \<and>
   parse_hid_report_desc [0x97, 0x00, 0x02, 0x00, 0x00, 0x80, 0x90] 7 = Inr 512"
proof -
  let ?d = "[0x97, 0x00, 0x02, 0x00, 0x00, 0x80, 0x90 :: u8]"
  let ?st1 = "\<lparr>count = 512, input = 0, output_v = 0, reads = [0, 1, 2, 3, 4]\<rparr>"
  have a: "int 0 < 7" by simp
  have b: "(4::nat) = (if unat (?d ! 0) mod 4 = 3 then 4 else unat (?d ! 0) mod 4)" by simp
  have c: "0 + 1 + 4 \<le> length ?d" by simp
  have t: "bType_of (uint (?d ! 0)) = 1 \<and> bTag_of (uint (?d ! 0)) = 9"
    by (simp add: bType_of_def bTag_of_def)
  have s: "item_step ?d (0 + 1) (bTag_of (uint (?d ! 0))) (bType_of (uint (?d ! 0)))
             (bSize_of (uint (?d ! 0))) (parse_init\<lparr>reads := reads parse_init @ [0]\<rparr>) = Inr ?st1"
    by (simp add: parse_eval)
  note inst = size_code_selects_payload_length[OF a b c, of parse_init]
  from inst have x: "bSize_of (uint (?d ! 0)) = int 4" by blast
  from inst s have y: "parse_loop ?d 7 0 parse_init = parse_loop ?d 7 (0 + 1 + 4) ?st1"
    by auto
  from inst t have z: "parse_hid_report_desc (?d ! 0 # take 4 (drop (0 + 1) ?d) @ [0x80, 0x90]) (int (4 + 3))
      = Inr 512" by simp
  from x y z show ?thesis by simp
qed

text \<open>
  C7, as the claim states it, does not hold: the payload of a Report Count item is read
  without comparing its indices with \<open>size\<close>. With the single byte \<open>0x95\<close> as
  descriptor (\<open>size = 1\<close>) the parser reads index 1: from a buffer that has a second
  byte it takes that byte, and in a buffer of exactly one byte the read leaves the buffer.
\<close>

theorem parse_reads_past_size_counterexample:
  "parse_loop [0x95, 0x40] 1 0 parse_init
     = Inr \<lparr>count = 0x40, input = 0, output_v = 0, reads = [0, 1]\<rparr> \<and>
   parse_hid_report_desc [0x95] 1 = Inl (OutOfBounds 1)"
  by (simp add: parse_eval)

text \<open>
  C7, amended. For every buffer and every \<open>size\<close> the parser terminates. All indices it
  reads are below \<open>size + 4\<close>; it ends with a size among 64, 512 and 1024, with the
  size-mismatch error or with the unsupported-size error, unless a read left the buffer,
  which happens only at an index below \<open>size + 4\<close> and never when the buffer extends
  four bytes beyond \<open>size\<close>.
\<close>

theorem parse_reads_bounded:
  "(\<forall>st. parse_loop data sz 0 parse_init = Inr st \<longrightarrow>
      (\<forall>k \<in> set (reads st). k < length data \<and> int k < sz + 4)) \<and>
   ((\<exists>v \<in> {64, 512, 1024}. parse_hid_report_desc data sz = Inr v) \<or>
    parse_hid_report_desc data sz = Inl SizeMismatch \<or>
    (\<exists>x. parse_hid_report_desc data sz = Inl (UnsupportedSize x)) \<or>
    (\<exists>k. parse_hid_report_desc data sz = Inl (OutOfBounds k) \<and>
         length data \<le> k \<and> int k < sz + 4)) \<and>
   (sz + 4 \<le> int (length data) \<longrightarrow>
      (\<forall>k. parse_hid_report_desc data sz \<noteq> Inl (OutOfBounds k)))"
proof -
  have reads: "\<forall>k \<in> set (reads st). k < length data \<and> int k < sz + 4"
    if "parse_loop data sz 0 parse_init = Inr st" for st
    using parse_loop_Inr_reads[OF that] by (auto simp: parse_init_def)
  have s: "sint (64::u32) = 64" "sint (512::u32) = 512" "sint (1024::u32) = 1024" by simp_all
  have cls: "(\<exists>v \<in> {64, 512, 1024}. parse_hid_report_desc data sz = Inr v) \<or>
    parse_hid_report_desc data sz = Inl SizeMismatch \<or>
    (\<exists>x. parse_hid_report_desc data sz = Inl (UnsupportedSize x)) \<or>
    (\<exists>k. parse_hid_report_desc data sz = Inl (OutOfBounds k) \<and>
         length data \<le> k \<and> int k < sz + 4)"
  proof (cases "parse_loop data sz 0 parse_init")
    case (Inl e)
    from parse_loop_Inl[OF this] Inl show ?thesis
      by (auto simp: parse_hid_report_desc_def)
  next
    case (Inr st)
    consider "input st \<noteq> output_v st"
      | "input st = output_v st" "input st = 64"
      | "input st = output_v st" "input st = 512"
      | "input st = output_v st" "input st = 1024"
      | "input st = output_v st" "input st \<noteq> 64" "input st \<noteq> 512" "input st \<noteq> 1024"
      by blast
    then show ?thesis
      by cases (simp_all add: parse_hid_report_desc_def Inr validate_def s)
  qed
  have nof: "parse_hid_report_desc data sz \<noteq> Inl (OutOfBounds k)"
    if "sz + 4 \<le> int (length data)" for k
  proof
    assume a: "parse_hid_report_desc data sz = Inl (OutOfBounds k)"
    then obtain e where e: "parse_loop data sz 0 parse_init = Inl e"
      by (cases "parse_loop data sz 0 parse_init")
         (auto simp: parse_hid_report_desc_def validate_def split: if_splits)
    with a have "e = OutOfBounds k" by (simp add: parse_hid_report_desc_def)
    with parse_loop_Inl[OF e] that show False by auto
  qed
  from reads cls nof show ?thesis by blast
qed

theorem parse_reads_bounded_witness:
  "parse_loop [0x95, 0x40, 0, 0, 0] 1 0 parse_init
     = Inr \<lparr>count = 0x40, input = 0, output_v = 0, reads = [0, 1]\<rparr> \<and>
   (1::nat) < length [0x95, 0x40, 0, 0, 0 :: u8] \<and> int 1 < 1 + 4 \<and>
   parse_hid_report_desc [0x95, 0x40, 0, 0, 0] 1 = Inl (UnsupportedSize 0)"
proof -
  let ?d = "[0x95, 0x40, 0, 0, 0 :: u8]"
  let ?st = "\<lparr>count = 0x40, input = 0, output_v = 0, reads = [0, 1]\<rparr>"
  have run: "parse_loop ?d 1 0 parse_init = Inr ?st"
    by (simp add: parse_eval)
  have res: "parse_hid_report_desc ?d 1 = Inl (UnsupportedSize 0)"
    by (simp add: parse_eval)
  from parse_reads_bounded[of ?d 1] run
  have "\<forall>k \<in> set (reads ?st). k < length ?d \<and> int k < 1 + 4" by blast
  then have "(1::nat) < length ?d \<and> int 1 < 1 + 4" by simp
  with run res show ?thesis by blast
qed

section \<open>Properties of the transport\<close>

subsection \<open>Closed forms\<close>

lemma length_frame_prefix:
  "nat req_size \<le> length data \<Longrightarrow>
   length (frame_prefix rs data req_size) = max (nat (rs + 1)) (1 + nat req_size)"
  by (auto simp: frame_prefix_def)

lemma build_frame_closed:
  "build_frame s data req_size =
     (if frame_fits (length (hid_buffer s)) (report_size s) data req_size
      then Some (frame_prefix (report_size s) data req_size
                 @ drop (length (frame_prefix (report_size s) data req_size)) (hid_buffer s))
      else None)"
proof (cases "frame_fits (length (hid_buffer s)) (report_size s) data req_size")
  case False
  then show ?thesis
    by (auto simp: build_frame_def memset_def write_byte_def memcpy_def frame_fits_def
             split: option.splits if_splits)
next
  case True
  let ?hb = "hid_buffer s" and ?n = "nat (report_size s + 1)" and ?q = "nat req_size"
  from True have c: "0 \<le> report_size s + 1" "?n \<le> length ?hb" "1 \<le> length ?hb"
    "0 \<le> req_size" "1 + ?q \<le> length ?hb" "?q \<le> length data"
    by (auto simp: frame_fits_def)
  let ?b1 = "replicate ?n 0xff @ drop ?n ?hb"
  have m: "memset ?hb 0xff (report_size s + 1) = Some ?b1"
    using c by (simp add: memset_def)
  have l1: "length ?b1 = length ?hb" using c by simp
  have pos: "0 < length ?b1" using c(3) l1 by linarith
  have w: "write_byte ?b1 0 0x00 = Some (?b1[0 := 0])"
    unfolding write_byte_def using pos by (simp only: if_True)
  have b2: "?b1[0 := 0] = 0 # replicate (?n - 1) 0xff @ drop (max ?n 1) ?hb"
  proof (cases ?n)
    case 0
    with c have "?hb \<noteq> []" by auto
    then obtain x xs where "?hb = x # xs" by (cases ?hb) auto
    with 0 show ?thesis by simp
  next
    case (Suc k)
    then show ?thesis by (simp add: max_def)
  qed
  have l2: "length (?b1[0 := 0]) = length ?hb" using l1 by (simp only: length_list_update)
  have cp: "memcpy (?b1[0 := 0]) 1 data 0 req_size
      = Some (take 1 (?b1[0 := 0]) @ take ?q data @ drop (1 + ?q) (?b1[0 := 0]))"
    unfolding memcpy_def l2 using c by simp
  have d: "drop (1 + ?q) (?b1[0 := 0])
       = replicate (?n - 1 - ?q) 0xff @ drop (max ?n (1 + ?q)) ?hb"
    unfolding b2 by (auto simp: max_def)
  have t: "take 1 (?b1[0 := 0]) = [0]" unfolding b2 by simp
  have "build_frame s data req_size
      = Some ([0] @ take ?q data @ replicate (?n - 1 - ?q) 0xff @ drop (max ?n (1 + ?q)) ?hb)"
    by (simp only: build_frame_def m w cp option.case d t)
  then show ?thesis
    using True c by (simp add: length_frame_prefix) (simp add: frame_prefix_def)
qed

lemma memcpy_out:
  assumes "nat m + 1 \<le> length got"
  shows "memcpy data 0 (got @ rest) 1 m =
           (if 0 \<le> m \<and> nat m \<le> length data
            then Some (take (nat m) (tl got) @ drop (nat m) data) else None)"
proof -
  have "take (nat m) (drop 1 (got @ rest)) = take (nat m) (tl got)"
    using assms by (simp add: drop_Suc)
  then show ?thesis
    using assms unfolding memcpy_def by (simp del: drop_append)
qed

lemma dbg_dap_cmd_closed:
  "dbg_dap_cmd s dev data resp_size req_size =
     (if data = [] \<or> \<not> frame_fits (length (hid_buffer s)) (report_size s) data req_size
        then Inl BufferFault
      else if write_res dev < 0 then Inl WriteFailed
      else case read_back dev of
        None \<Rightarrow> Inl ReadFailed
      | Some bs \<Rightarrow>
          (let got = take (nat (report_size s + 1)) bs;
               m = (if resp_size < int (length got) - 1 then resp_size else int (length got) - 1)
           in if got = [] then Inl EmptyResponse
              else if hd got \<noteq> data ! 0 then Inl (InvalidResponse (data ! 0) (hd got))
              else if m < 0 \<or> length data < nat m then Inl BufferFault
              else Inr \<lparr>frame = take (nat (report_size s + 1)) (frame_prefix (report_size s) data req_size),
                        ret = int (length got) - 1,
                        data_out = take (nat m) (tl got) @ drop (nat m) data,
                        session_out = s\<lparr>hid_buffer := got @ drop (length got)
                           (frame_prefix (report_size s) data req_size
                            @ drop (length (frame_prefix (report_size s) data req_size)) (hid_buffer s))\<rparr>\<rparr>))"
proof (cases "data = [] \<or> \<not> frame_fits (length (hid_buffer s)) (report_size s) data req_size")
  case True
  then show ?thesis
    by (auto simp: dbg_dap_cmd_def read_byte_def build_frame_closed)
next
  case False
  then have ne: "data \<noteq> []" and ff: "frame_fits (length (hid_buffer s)) (report_size s) data req_size"
    by simp_all
  let ?n = "nat (report_size s + 1)"
  let ?pre = "frame_prefix (report_size s) data req_size"
  let ?buf = "?pre @ drop (length ?pre) (hid_buffer s)"
  have rb: "read_byte data 0 = Some (data ! 0)" using ne by (simp add: read_byte_def)
  have bf: "build_frame s data req_size = Some ?buf" using ff by (simp add: build_frame_closed)
  have lp: "?n \<le> length ?pre" using ff by (simp add: length_frame_prefix frame_fits_def)
  have sent: "take ?n ?buf = take ?n ?pre" using lp by simp
  show ?thesis
  proof (cases "write_res dev < 0")
    case True
    then show ?thesis using False
      by (simp add: dbg_dap_cmd_def rb bf Let_def)
  next
    case wok: False
    show ?thesis
    proof (cases "read_back dev")
      case None
      then show ?thesis using False wok
        by (simp add: dbg_dap_cmd_def rb bf Let_def sys_read_def)
    next
      case (Some bs)
      define got where "got = take ?n bs"
      let ?buf' = "got @ drop (length got) ?buf"
      let ?res = "int (length got) - 1"
      let ?m = "if resp_size < ?res then resp_size else ?res"
      have sr: "sys_read (read_back dev) ?buf (report_size s + 1) = (int (length got), ?buf')"
        by (simp only: Some sys_read_def option.case Let_def got_def)
      have rhs: "(case read_back dev of
        None \<Rightarrow> Inl ReadFailed
      | Some bs \<Rightarrow>
          (let got = take (nat (report_size s + 1)) bs;
               m = (if resp_size < int (length got) - 1 then resp_size else int (length got) - 1)
           in if got = [] then Inl EmptyResponse
              else if hd got \<noteq> data ! 0 then Inl (InvalidResponse (data ! 0) (hd got))
              else if m < 0 \<or> length data < nat m then Inl BufferFault
              else Inr \<lparr>frame = take ?n ?pre,
                        ret = int (length got) - 1,
                        data_out = take (nat m) (tl got) @ drop (nat m) data,
                        session_out = s\<lparr>hid_buffer := got @ drop (length got) ?buf\<rparr>\<rparr>))
        = (if got = [] then Inl EmptyResponse
              else if hd got \<noteq> data ! 0 then Inl (InvalidResponse (data ! 0) (hd got))
              else if ?m < 0 \<or> length data < nat ?m then Inl BufferFault
              else Inr \<lparr>frame = take ?n ?pre,
                        ret = ?res,
                        data_out = take (nat ?m) (tl got) @ drop (nat ?m) data,
                        session_out = s\<lparr>hid_buffer := ?buf'\<rparr>\<rparr>)"
        by (simp only: Some option.case Let_def got_def)
      have lhs: "dbg_dap_cmd s dev data resp_size req_size =
           (if got = [] then Inl EmptyResponse
            else case read_byte ?buf' 0 of
              None \<Rightarrow> Inl BufferFault
            | Some r \<Rightarrow>
               if r \<noteq> data ! 0 then Inl (InvalidResponse (data ! 0) r)
               else case memcpy data 0 ?buf' 1 ?m of
                   None \<Rightarrow> Inl BufferFault
                 | Some data' \<Rightarrow> Inr \<lparr>frame = take ?n ?buf, ret = ?res, data_out = data',
                                      session_out = s\<lparr>hid_buffer := ?buf'\<rparr>\<rparr>)"
        using wok
        by (simp only: dbg_dap_cmd_def rb bf Let_def sr option.case prod.case if_False) simp
      show ?thesis
      proof (cases "got = []")
        case True
        then show ?thesis using False wok
          by (simp only: lhs rhs) simp
      next
        case gne: False
        have r0: "read_byte ?buf' 0 = Some (hd got)"
          using gne by (cases got) (simp_all add: read_byte_def)
        have "nat ?m + 1 \<le> length got" using gne by (cases got) auto
        from memcpy_out[OF this]
        have mc: "memcpy data 0 ?buf' 1 ?m =
           (if 0 \<le> ?m \<and> nat ?m \<le> length data
            then Some (take (nat ?m) (tl got) @ drop (nat ?m) data) else None)" .
        show ?thesis
          using False wok gne
          by (simp only: lhs rhs r0 mc sent if_False option.case) auto
      qed
    qed
  qed
qed

lemma frame_layout:
  assumes "0 \<le> req_size" and "req_size \<le> rs" and "nat req_size \<le> length data"
  shows "take (nat (rs + 1)) (frame_prefix rs data req_size) =
           0 # take (nat req_size) data @ replicate (nat (rs - req_size)) 0xff"
proof -
  have "nat (rs + 1) - 1 - nat req_size = nat (rs - req_size)" using assms by simp
  moreover have "length (0 # take (nat req_size) data @ replicate (nat (rs - req_size)) (0xff::u8))
      = nat (rs + 1)" using assms by simp
  ultimately show ?thesis unfolding frame_prefix_def by (simp del: length_Cons)
qed


lemma hd_take: "take n bs \<noteq> [] \<Longrightarrow> hd (take n bs) = hd bs"
  by (cases bs; cases n) simp_all

lemma dbg_dap_cmd_Inr:
  assumes "dbg_dap_cmd s dev data resp_size req_size = Inr r"
  obtains bs where "read_back dev = Some bs"
    and "take (nat (report_size s + 1)) bs \<noteq> []"
    and "hd bs = data ! 0"
    and "data \<noteq> []"
    and "frame_fits (length (hid_buffer s)) (report_size s) data req_size"
    and "0 \<le> min resp_size (int (length (take (nat (report_size s + 1)) bs)) - 1)"
    and "nat (min resp_size (int (length (take (nat (report_size s + 1)) bs)) - 1)) \<le> length data"
    and "ret r = int (length (take (nat (report_size s + 1)) bs)) - 1"
    and "data_out r =
           take (nat (min resp_size (int (length (take (nat (report_size s + 1)) bs)) - 1)))
                (tl (take (nat (report_size s + 1)) bs))
           @ drop (nat (min resp_size (int (length (take (nat (report_size s + 1)) bs)) - 1))) data"
    and "frame r = take (nat (report_size s + 1)) (frame_prefix (report_size s) data req_size)"
    and "session_out r = s\<lparr>hid_buffer := take (nat (report_size s + 1)) bs
            @ drop (length (take (nat (report_size s + 1)) bs))
                (frame_prefix (report_size s) data req_size
                 @ drop (length (frame_prefix (report_size s) data req_size)) (hid_buffer s))\<rparr>"
proof -
  let ?n = "nat (report_size s + 1)"
  from assms obtain bs where bs: "read_back dev = Some bs"
    unfolding dbg_dap_cmd_closed by (cases "read_back dev") (auto split: if_splits)
  define got where "got = take ?n bs"
  define pre where "pre = frame_prefix (report_size s) data req_size"
  define m where "m = min resp_size (int (length got) - 1)"
  have mm: "(if resp_size < int (length got) - 1 then resp_size else int (length got) - 1) = m"
    by (simp add: min_def m_def)
  from assms have
    "(if data = [] \<or> \<not> frame_fits (length (hid_buffer s)) (report_size s) data req_size
        then Inl BufferFault
      else if write_res dev < 0 then Inl WriteFailed
      else if got = [] then Inl EmptyResponse
      else if hd got \<noteq> data ! 0 then Inl (InvalidResponse (data ! 0) (hd got))
      else if m < 0 \<or> length data < nat m then Inl BufferFault
      else Inr \<lparr>frame = take ?n pre, ret = int (length got) - 1,
                data_out = take (nat m) (tl got) @ drop (nat m) data,
                session_out = s\<lparr>hid_buffer := got @ drop (length got)
                           (pre @ drop (length pre) (hid_buffer s))\<rparr>\<rparr>) = Inr r"
    by (simp only: dbg_dap_cmd_closed bs option.case Let_def got_def[symmetric] pre_def[symmetric] mm)
  then have c: "data \<noteq> []"
    "frame_fits (length (hid_buffer s)) (report_size s) data req_size"
    "got \<noteq> []" "hd got = data ! 0" "0 \<le> m" "nat m \<le> length data"
    and r: "r = \<lparr>frame = take ?n pre, ret = int (length got) - 1,
                data_out = take (nat m) (tl got) @ drop (nat m) data,
                session_out = s\<lparr>hid_buffer := got @ drop (length got)
                           (pre @ drop (length pre) (hid_buffer s))\<rparr>\<rparr>"
    by (auto split: if_splits)
  have g: "take ?n bs \<noteq> []" using c(3) by (simp only: got_def not_False_eq_True)
  show ?thesis
  proof (rule that[OF bs g _ c(1,2)])
    show "hd bs = data ! 0" using hd_take[OF g] c(4) by (simp only: got_def)
    show "0 \<le> min resp_size (int (length (take ?n bs)) - 1)"
      using c(5) by (simp only: m_def got_def)
    show "nat (min resp_size (int (length (take ?n bs)) - 1)) \<le> length data"
      using c(6) by (simp only: m_def got_def)
    show "ret r = int (length (take ?n bs)) - 1"
      unfolding r by (simp add: got_def)
    show "data_out r =
           take (nat (min resp_size (int (length (take ?n bs)) - 1))) (tl (take ?n bs))
           @ drop (nat (min resp_size (int (length (take ?n bs)) - 1))) data"
      unfolding r by (simp add: got_def m_def)
    show "frame r = take ?n (frame_prefix (report_size s) data req_size)"
      unfolding r by (simp add: pre_def)
    show "session_out r = s\<lparr>hid_buffer := take ?n bs
            @ drop (length (take ?n bs))
                (frame_prefix (report_size s) data req_size
                 @ drop (length (frame_prefix (report_size s) data req_size)) (hid_buffer s))\<rparr>"
      unfolding r by (simp add: got_def pre_def)
  qed
qed

lemma dbg_dap_cmd_session:
  assumes "dbg_dap_cmd s dev data resp_size req_size = Inr r"
  shows "report_size (session_out r) = report_size s \<and>
         debugger_fd (session_out r) = debugger_fd s \<and>
         length (hid_buffer (session_out r)) = length (hid_buffer s)"
proof -
  let ?n = "nat (report_size s + 1)"
  let ?pre = "frame_prefix (report_size s) data req_size"
  from assms obtain bs where
    ff: "frame_fits (length (hid_buffer s)) (report_size s) data req_size"
    and so: "session_out r = s\<lparr>hid_buffer := take ?n bs
            @ drop (length (take ?n bs)) (?pre @ drop (length ?pre) (hid_buffer s))\<rparr>"
    by (rule dbg_dap_cmd_Inr)
  have lp: "length ?pre = max ?n (1 + nat req_size)"
    using ff by (simp add: length_frame_prefix frame_fits_def)
  have lb: "length (?pre @ drop (length ?pre) (hid_buffer s)) = length (hid_buffer s)"
    using ff unfolding length_append length_drop lp by (auto simp: frame_fits_def)
  have lg: "length (take ?n bs) \<le> ?n" by simp
  have "?n \<le> length (hid_buffer s)" using ff by (auto simp: frame_fits_def)
  with lg have "length (take ?n bs) \<le> length (hid_buffer s)" by linarith
  then have "length (take ?n bs @ drop (length (take ?n bs)) (?pre @ drop (length ?pre) (hid_buffer s)))
      = length (hid_buffer s)"
    unfolding length_append[of "take ?n bs"] length_drop[of "length (take ?n bs)"] lb by linarith
  then show ?thesis unfolding so by simp
qed

lemma exchanges_session:
  "exchanges s cs = Inr s' \<Longrightarrow>
   report_size s' = report_size s \<and> debugger_fd s' = debugger_fd s \<and>
   length (hid_buffer s') = length (hid_buffer s)"
proof (induction cs arbitrary: s)
  case Nil
  then show ?case by simp
next
  case (Cons c cs)
  from Cons.prems obtain r where
    r: "dbg_dap_cmd s (c_dev c) (c_data c) (c_resp_size c) (c_req_size c) = Inr r"
    and rest: "exchanges (session_out r) cs = Inr s'"
    by (auto split: sum.splits)
  from Cons.IH[OF rest] dbg_dap_cmd_session[OF r] show ?case by simp
qed

lemma observed_independent:
  assumes "report_size s1 = report_size s2"
    and "length (hid_buffer s1) = length (hid_buffer s2)"
  shows "observed (dbg_dap_cmd s1 dev data resp_size req_size)
       = observed (dbg_dap_cmd s2 dev data resp_size req_size)"
  unfolding dbg_dap_cmd_closed assms(1) assms(2) observed_def Let_def
  by (simp split: option.split)


lemma sent_independent:
  assumes "report_size s1 = report_size s2"
    and "length (hid_buffer s1) = length (hid_buffer s2)"
  shows "map_option (take (nat (report_size s1 + 1))) (build_frame s1 data req_size)
       = map_option (take (nat (report_size s2 + 1))) (build_frame s2 data req_size)"
proof (cases "frame_fits (length (hid_buffer s2)) (report_size s2) data req_size")
  case False
  then show ?thesis by (simp add: build_frame_closed assms)
next
  case True
  then have "nat (report_size s2 + 1) \<le> length (frame_prefix (report_size s2) data req_size)"
    by (simp add: length_frame_prefix frame_fits_def)
  with True show ?thesis by (simp add: build_frame_closed assms)
qed

lemmas exchange_eval = dbg_dap_cmd_closed frame_fits_def frame_prefix_def probe64_def Let_def

lemma debugger_fd_init: "debugger_fd (session_init n) = - 1"
  by (simp add: session_init_def)

subsection \<open>Results of the transport\<close>

text \<open>
  C2. For a request of at most \<open>report_size\<close> bytes the frame handed to \<open>write\<close>
  has \<open>report_size + 1\<close> bytes: the report ID \<open>0x00\<close>, the request, and \<open>0xFF\<close> in
  every byte that remains. For the request \<open>02 AA BB\<close> and 64-byte reports these are 65
  bytes, 61 of them padding.
\<close>

theorem outbound_frame_layout:
  assumes "0 \<le> req_size" and "req_size \<le> report_size s"
    and "report_size s + 1 \<le> int (length (hid_buffer s))"
    and "nat req_size \<le> length data"
  shows "(\<exists>buf. build_frame s data req_size = Some buf \<and>
            take (nat (report_size s + 1)) buf
              = 0 # take (nat req_size) data @ replicate (nat (report_size s - req_size)) 0xff \<and>
            length (take (nat (report_size s + 1)) buf) = nat (report_size s + 1)) \<and>
         (\<forall>r. dbg_dap_cmd s dev data resp_size req_size = Inr r \<longrightarrow>
            frame r = 0 # take (nat req_size) data @ replicate (nat (report_size s - req_size)) 0xff \<and>
            length (frame r) = nat (report_size s + 1))"
proof -
  let ?n = "nat (report_size s + 1)"
  let ?pre = "frame_prefix (report_size s) data req_size"
  let ?f = "0 # take (nat req_size) data @ replicate (nat (report_size s - req_size)) (0xff::u8)"
  have ff: "frame_fits (length (hid_buffer s)) (report_size s) data req_size"
    using assms by (auto simp: frame_fits_def)
  have lay: "take ?n ?pre = ?f" using assms(1,2,4) by (rule frame_layout)
  have len: "length ?f = ?n" using assms by simp
  have lp: "?n \<le> length ?pre" using assms by (simp add: length_frame_prefix)
  have "build_frame s data req_size = Some (?pre @ drop (length ?pre) (hid_buffer s))"
    using ff by (simp add: build_frame_closed)
  moreover have "take ?n (?pre @ drop (length ?pre) (hid_buffer s)) = ?f"
    using lp lay by simp
  ultimately have a: "\<exists>buf. build_frame s data req_size = Some buf \<and> take ?n buf = ?f \<and>
            length (take ?n buf) = ?n"
    using len by (simp del: length_Cons length_take)
  have b: "frame r = ?f \<and> length (frame r) = ?n"
    if "dbg_dap_cmd s dev data resp_size req_size = Inr r" for r
  proof -
    from that have "frame r = take ?n ?pre"
      unfolding dbg_dap_cmd_closed
      by (auto simp: Let_def split: if_splits option.splits)
    with lay len show ?thesis by (simp del: length_Cons)
  qed
  from a b show ?thesis by blast
qed

theorem outbound_frame_layout_witness:
  "\<exists>buf. build_frame probe64 [0x02, 0xAA, 0xBB] 3 = Some buf \<and>
         take 65 buf = [0x00, 0x02, 0xAA, 0xBB] @ replicate 61 0xff \<and>
         length (take 65 buf) = 65"
proof -
  have a: "(0::int) \<le> 3" "3 \<le> report_size probe64"
    "report_size probe64 + 1 \<le> int (length (hid_buffer probe64))"
    "nat 3 \<le> length [0x02, 0xAA, 0xBB :: u8]"
    by (simp_all add: probe64_def)
  have n: "nat (report_size probe64 + 1) = 65" "nat (report_size probe64 - 3) = 61"
    by (simp_all add: probe64_def)
  from outbound_frame_layout[OF a, of "\<lparr>write_res = 65, read_back = Some [0x02]\<rparr>" 0] show ?thesis
    unfolding n by simp
qed

text \<open>
  C5. A call made as \<open>call_ok\<close> asks fails exactly when \<open>write\<close> fails, when
  \<open>read\<close> fails, when \<open>read\<close> returns no byte, or when the first byte read differs
  from the first byte of the request; each case has its own error, and the last one
  names the identifier sent and the one received. A failing call returns no payload.
\<close>

theorem exchange_fails_iff:
  assumes "call_ok s data resp_size req_size"
  shows "((\<exists>e. dbg_dap_cmd s dev data resp_size req_size = Inl e) \<longleftrightarrow>
            write_res dev < 0 \<or> read_back dev = None \<or>
            (\<exists>bs. read_back dev = Some bs \<and>
                  (take (nat (report_size s + 1)) bs = [] \<or> hd bs \<noteq> data ! 0))) \<and>
         (write_res dev < 0 \<longrightarrow> dbg_dap_cmd s dev data resp_size req_size = Inl WriteFailed) \<and>
         (0 \<le> write_res dev \<and> read_back dev = None \<longrightarrow>
            dbg_dap_cmd s dev data resp_size req_size = Inl ReadFailed) \<and>
         (\<forall>bs. 0 \<le> write_res dev \<and> read_back dev = Some bs \<and>
               take (nat (report_size s + 1)) bs = [] \<longrightarrow>
            dbg_dap_cmd s dev data resp_size req_size = Inl EmptyResponse) \<and>
         (\<forall>bs. 0 \<le> write_res dev \<and> read_back dev = Some bs \<and>
               take (nat (report_size s + 1)) bs \<noteq> [] \<and> hd bs \<noteq> data ! 0 \<longrightarrow>
            dbg_dap_cmd s dev data resp_size req_size = Inl (InvalidResponse (data ! 0) (hd bs)))"
proof -
  let ?n = "nat (report_size s + 1)"
  from assms have ok: "data \<noteq> []"
    "frame_fits (length (hid_buffer s)) (report_size s) data req_size"
    "0 \<le> resp_size" "nat resp_size \<le> length data"
    by (simp_all add: call_ok_def)
  have nf: "\<not> ((if resp_size < int (length got) - 1 then resp_size else int (length got) - 1) < 0
              \<or> length data < nat (if resp_size < int (length got) - 1 then resp_size
                                    else int (length got) - 1))"
    if "got \<noteq> []" for got :: "u8 list"
    using ok(3,4) that by (cases got) auto
  show ?thesis
  proof (cases "write_res dev < 0")
    case True
    then show ?thesis using ok by (simp add: dbg_dap_cmd_closed)
  next
    case wok: False
    show ?thesis
    proof (cases "read_back dev")
      case None
      then show ?thesis using ok wok by (simp add: dbg_dap_cmd_closed)
    next
      case (Some bs)
      show ?thesis
      proof (cases "take ?n bs = []")
        case True
        then show ?thesis using ok wok Some
          by (simp only: dbg_dap_cmd_closed Let_def) auto
      next
        case False
        note h = hd_take[OF False]
        show ?thesis using ok wok Some False nf[OF False] h
          by (simp only: dbg_dap_cmd_closed Let_def) auto
      qed
    qed
  qed
qed

theorem exchange_fails_iff_witness:
  "dbg_dap_cmd probe64 \<lparr>write_res = 65, read_back = Some [0x03, 0x01, 0x02]\<rparr>
      [0x02, 0xAA, 0xBB] 3 3 = Inl (InvalidResponse 0x02 0x03) \<and>
   dbg_dap_cmd probe64 \<lparr>write_res = 65, read_back = Some []\<rparr>
      [0x02, 0xAA, 0xBB] 3 3 = Inl EmptyResponse"
proof -
  have ok: "call_ok probe64 [0x02, 0xAA, 0xBB] 3 3"
    by (simp add: call_ok_def frame_fits_def probe64_def)
  have n: "nat (report_size probe64 + 1) = 65" by (simp add: probe64_def)
  from exchange_fails_iff[OF ok, of "\<lparr>write_res = 65, read_back = Some [0x03, 0x01, 0x02]\<rparr>"]
  have a: "dbg_dap_cmd probe64 \<lparr>write_res = 65, read_back = Some [0x03, 0x01, 0x02]\<rparr>
      [0x02, 0xAA, 0xBB] 3 3 = Inl (InvalidResponse 0x02 0x03)"
    unfolding n by simp
  from exchange_fails_iff[OF ok, of "\<lparr>write_res = 65, read_back = Some []\<rparr>"]
  have b: "dbg_dap_cmd probe64 \<lparr>write_res = 65, read_back = Some []\<rparr>
      [0x02, 0xAA, 0xBB] 3 3 = Inl EmptyResponse"
    unfolding n by simp
  from a b show ?thesis ..
qed


text \<open>
  C6. A call that returns has read \<open>n > 0\<close> bytes and returns \<open>n - 1\<close>, whatever the
  capacity \<open>resp_size\<close> is; the caller's array starts with the response without its
  first byte, cut to \<open>min resp_size (n - 1)\<close> bytes, and the returned value exceeds
  \<open>resp_size\<close> exactly when bytes of the payload were left out.
\<close>

theorem exchange_returns_payload_length:
  assumes "dbg_dap_cmd s dev data resp_size req_size = Inr r"
  shows "\<exists>bs. read_back dev = Some bs \<and>
           (let got = take (nat (report_size s + 1)) bs;
                m = nat (min resp_size (int (length got) - 1))
            in 0 < length got \<and>
               ret r = int (length got) - 1 \<and>
               take m (data_out r) = take m (tl got) \<and>
               data_out r = take m (tl got) @ drop m data \<and>
               (resp_size < ret r \<longleftrightarrow> m < length (tl got)))"
proof -
  from assms obtain bs where bs: "read_back dev = Some bs"
    and ne: "take (nat (report_size s + 1)) bs \<noteq> []"
    and m0: "0 \<le> min resp_size (int (length (take (nat (report_size s + 1)) bs)) - 1)"
    and ret: "ret r = int (length (take (nat (report_size s + 1)) bs)) - 1"
    and out: "data_out r =
           take (nat (min resp_size (int (length (take (nat (report_size s + 1)) bs)) - 1)))
                (tl (take (nat (report_size s + 1)) bs))
           @ drop (nat (min resp_size (int (length (take (nat (report_size s + 1)) bs)) - 1))) data"
    by (rule dbg_dap_cmd_Inr)
  define got where "got = take (nat (report_size s + 1)) bs"
  define m where "m = nat (min resp_size (int (length got) - 1))"
  note f = ne m0 ret out
  note g = f[folded got_def] 
  note h = g(1) g(2) g(3) g(4)[folded m_def]
  have lg: "int (length (tl got)) = int (length got) - 1"
    using h(1) by (cases got) simp_all
  have m0': "0 \<le> min resp_size (int (length (tl got)))" using h(2) by (simp only: lg)
  have md: "m = nat (min resp_size (int (length (tl got))))" by (simp only: m_def lg)
  have lt: "m \<le> length (tl got)" unfolding md by linarith
  have pos: "0 < length got" using h(1) by simp
  have tk: "take m (data_out r) = take m (tl got)" using lt by (simp add: h(4))
  have rt: "ret r = int (length (tl got))" by (simp only: h(3) lg)
  have tr: "resp_size < ret r \<longleftrightarrow> m < length (tl got)"
    unfolding rt md using m0' by linarith
  have "read_back dev = Some bs \<and>
           (let got = take (nat (report_size s + 1)) bs;
                m = nat (min resp_size (int (length got) - 1))
            in 0 < length got \<and>
               ret r = int (length got) - 1 \<and>
               take m (data_out r) = take m (tl got) \<and>
               data_out r = take m (tl got) @ drop m data \<and>
               (resp_size < ret r \<longleftrightarrow> m < length (tl got)))"
    unfolding Let_def got_def[symmetric] m_def[symmetric]
    using pos h(3) tk h(4) tr bs by (intro conjI)
  then show ?thesis by (rule exI)
qed

theorem exchange_returns_payload_length_witness:
  "dbg_dap_cmd probe64 \<lparr>write_res = 65, read_back = Some [0x02, 1, 2, 3, 4, 5]\<rparr>
      [0x02, 0xAA, 0xBB, 9, 9, 9, 9] 3 3
     = Inr \<lparr>frame = [0x00, 0x02, 0xAA, 0xBB] @ replicate 61 0xff, ret = 5,
            data_out = [1, 2, 3, 9, 9, 9, 9],
            session_out = probe64\<lparr>hid_buffer := [0x02, 1, 2, 3, 4, 5] @ replicate 59 0xff\<rparr>\<rparr> \<and>
   take 3 [1, 2, 3, 9, 9, 9, 9 :: u8] = take 3 (tl [0x02, 1, 2, 3, 4, 5])"
proof -
  let ?r = "\<lparr>frame = [0x00, 0x02, 0xAA, 0xBB] @ replicate 61 0xff, ret = 5,
            data_out = [1, 2, 3, 9, 9, 9, 9 :: u8],
            session_out = probe64\<lparr>hid_buffer := [0x02, 1, 2, 3, 4, 5] @ replicate 59 0xff\<rparr>\<rparr>"
  have run: "dbg_dap_cmd probe64 \<lparr>write_res = 65, read_back = Some [0x02, 1, 2, 3, 4, 5]\<rparr>
      [0x02, 0xAA, 0xBB, 9, 9, 9, 9] 3 3 = Inr ?r"
    by (simp add: exchange_eval)
  from exchange_returns_payload_length[OF run]
  have "take 3 [1, 2, 3, 9, 9, 9, 9 :: u8] = take 3 (tl [0x02, 1, 2, 3, 4, 5])"
    by (simp add: probe64_def Let_def)
  with run show ?thesis ..
qed

text \<open>
  C9. Whatever calls a session has served before, a call with the same request, sizes
  and device behaviour sends the same frame and gives the caller the same result: the
  value returned and the contents of its array. Nothing of an earlier request reaches a
  later frame or response.
\<close>

theorem exchange_keeps_no_residue:
  assumes "exchanges s0 cs1 = Inr s1" and "exchanges s0 cs2 = Inr s2"
  shows "observed (dbg_dap_cmd s1 dev data resp_size req_size)
           = observed (dbg_dap_cmd s2 dev data resp_size req_size) \<and>
         map_option (take (nat (report_size s1 + 1))) (build_frame s1 data req_size)
           = map_option (take (nat (report_size s2 + 1))) (build_frame s2 data req_size)"
proof -
  from exchanges_session[OF assms(1)] exchanges_session[OF assms(2)]
  have e: "report_size s1 = report_size s2" "length (hid_buffer s1) = length (hid_buffer s2)"
    by simp_all
  from observed_independent[OF e] sent_independent[OF e] show ?thesis by (rule conjI)
qed

theorem exchange_keeps_no_residue_witness:
  "exchanges probe64 [long_call]
     = Inr (probe64\<lparr>hid_buffer := [0x01, 0x77, 0x88, 0x99, 0xBE, 0xEF, 0x55] @ replicate 58 0xff\<rparr>) \<and>
   exchanges probe64 [] = Inr probe64 \<and>
   observed (dbg_dap_cmd
       (probe64\<lparr>hid_buffer := [0x01, 0x77, 0x88, 0x99, 0xBE, 0xEF, 0x55] @ replicate 58 0xff\<rparr>)
       \<lparr>write_res = 65, read_back = Some [0x02, 0x10]\<rparr> [0x02, 0xAA] 1 2)
     = Inr ([0x00, 0x02, 0xAA] @ replicate 62 0xff, 1, [0x10, 0xAA])"
proof -
  let ?s1 = "probe64\<lparr>hid_buffer := [0x01, 0x77, 0x88, 0x99, 0xBE, 0xEF, 0x55] @ replicate 58 0xff\<rparr>"
  let ?dev = "\<lparr>write_res = 65, read_back = Some [0x02, 0x10 :: u8]\<rparr>"
  have a: "exchanges probe64 [long_call] = Inr ?s1"
    by (simp add: long_call_def exchange_eval)
  have b: "exchanges probe64 [] = Inr probe64" by simp
  have c: "observed (dbg_dap_cmd probe64 ?dev [0x02, 0xAA] 1 2)
             = Inr ([0x00, 0x02, 0xAA] @ replicate 62 0xff, 1, [0x10, 0xAA])"
    by (simp add: observed_def exchange_eval)
  from exchange_keeps_no_residue[OF a b, of ?dev "[0x02, 0xAA]" 1 2, THEN conjunct1] c
  have "observed (dbg_dap_cmd ?s1 ?dev [0x02, 0xAA] 1 2)
             = Inr ([0x00, 0x02, 0xAA] @ replicate 62 0xff, 1, [0x10, 0xAA])"
    by (simp only:)
  with a b show ?thesis by (intro conjI)
qed

text \<open>
  C10. The array \<open>data\<close> is both the request and the place of the response: a call
  that returns has replaced its first \<open>min resp_size (ret)\<close> bytes by the bytes that
  follow the identifier in the response and has left the others as they were. The
  identifier that the response is compared with is the first byte of \<open>data\<close> as it was
  when the call was made.
\<close>

theorem exchange_overwrites_request_in_place:
  "(\<forall>r. dbg_dap_cmd s dev data resp_size req_size = Inr r \<longrightarrow>
      length (data_out r) = length data \<and>
      (\<exists>bs. read_back dev = Some bs \<and> hd bs = data ! 0 \<and>
            nat (min resp_size (ret r)) \<le> length data \<and>
            (\<forall>k < nat (min resp_size (ret r)). data_out r ! k = bs ! (k + 1)) \<and>
            (\<forall>k. nat (min resp_size (ret r)) \<le> k \<and> k < length data \<longrightarrow>
                  data_out r ! k = data ! k))) \<and>
   (\<forall>a b. dbg_dap_cmd s dev data resp_size req_size = Inl (InvalidResponse a b) \<longrightarrow>
      a = data ! 0)"
proof -
  have ok: "length (data_out r) = length data \<and>
      (\<exists>bs. read_back dev = Some bs \<and> hd bs = data ! 0 \<and>
            nat (min resp_size (ret r)) \<le> length data \<and>
            (\<forall>k < nat (min resp_size (ret r)). data_out r ! k = bs ! (k + 1)) \<and>
            (\<forall>k. nat (min resp_size (ret r)) \<le> k \<and> k < length data \<longrightarrow>
                  data_out r ! k = data ! k))"
    if run: "dbg_dap_cmd s dev data resp_size req_size = Inr r" for r
  proof -
    from run obtain bs where bs: "read_back dev = Some bs"
      and ne: "take (nat (report_size s + 1)) bs \<noteq> []"
      and hd: "hd bs = data ! 0"
      and m0: "0 \<le> min resp_size (int (length (take (nat (report_size s + 1)) bs)) - 1)"
      and ml: "nat (min resp_size (int (length (take (nat (report_size s + 1)) bs)) - 1)) \<le> length data"
      and ret: "ret r = int (length (take (nat (report_size s + 1)) bs)) - 1"
      and out: "data_out r =
           take (nat (min resp_size (int (length (take (nat (report_size s + 1)) bs)) - 1)))
                (tl (take (nat (report_size s + 1)) bs))
           @ drop (nat (min resp_size (int (length (take (nat (report_size s + 1)) bs)) - 1))) data"
      by (rule dbg_dap_cmd_Inr)
    define got where "got = take (nat (report_size s + 1)) bs"
    define m where "m = nat (min resp_size (ret r))"
    have mm: "nat (min resp_size (int (length got) - 1)) = m"
      by (simp only: m_def ret got_def)
    note ne' = ne[folded got_def]
    note m0' = m0[folded got_def]
    note ml' = ml[folded got_def, unfolded mm]
    note out' = out[folded got_def, unfolded mm]
    have lg: "int (length (tl got)) = int (length got) - 1"
      using ne' by (cases got) simp_all
    have "min resp_size (int (length got) - 1) \<le> int (length (tl got))"
      unfolding lg by simp
    then have mt: "m \<le> length (tl got)" unfolding mm[symmetric] by linarith
    have len: "length (data_out r) = length data"
      unfolding out' using mt ml' by simp
    have gl: "length got \<le> length bs" by (simp add: got_def)
    have low: "data_out r ! k = bs ! (k + 1)" if "k < m" for k
    proof -
      have k1: "k < length (tl got)" using that mt by simp
      then have k2: "k + 1 < length got" by simp
      have "data_out r ! k = tl got ! k"
        unfolding out' using that k1 by (simp add: nth_append)
      also have "\<dots> = got ! (k + 1)" using k2 by (simp add: nth_tl)
      also have "\<dots> = bs ! (k + 1)" using k2 by (simp add: got_def)
      finally show ?thesis .
    qed
    have high: "data_out r ! k = data ! k" if "m \<le> k" "k < length data" for k
    proof -
      have "length (take m (tl got)) = m" using mt by simp
      then have "data_out r ! k = drop m data ! (k - m)"
        unfolding out' using that by (simp add: nth_append)
      also have "\<dots> = data ! k" using that ml' by simp
      finally show ?thesis .
    qed
    from len bs hd ml' low high show ?thesis
      unfolding m_def[symmetric] by blast
  qed
  have bad: "a = data ! 0"
    if "dbg_dap_cmd s dev data resp_size req_size = Inl (InvalidResponse a b)" for a b
    using that unfolding dbg_dap_cmd_closed
    by (auto simp: Let_def split: if_splits option.splits)
  from ok bad show ?thesis by blast
qed

theorem exchange_overwrites_request_in_place_witness:
  "dbg_dap_cmd probe64 \<lparr>write_res = 65, read_back = Some [0x05, 0x11, 0x22]\<rparr>
      [0x05, 0x01, 0x02, 0x03] 4 2
     = Inr \<lparr>frame = [0x00, 0x05, 0x01] @ replicate 62 0xff, ret = 2,
            data_out = [0x11, 0x22, 0x02, 0x03],
            session_out = probe64\<lparr>hid_buffer := [0x05, 0x11, 0x22] @ replicate 62 0xff\<rparr>\<rparr> \<and>
   length [0x11, 0x22, 0x02, 0x03 :: u8] = length [0x05, 0x01, 0x02, 0x03 :: u8] \<and>
   hd [0x05, 0x11, 0x22 :: u8] = [0x05, 0x01, 0x02, 0x03] ! 0"
proof -
  let ?r = "\<lparr>frame = [0x00, 0x05, 0x01] @ replicate 62 0xff, ret = 2,
            data_out = [0x11, 0x22, 0x02, 0x03 :: u8],
            session_out = probe64\<lparr>hid_buffer := [0x05, 0x11, 0x22] @ replicate 62 0xff\<rparr>\<rparr>"
  have run: "dbg_dap_cmd probe64 \<lparr>write_res = 65, read_back = Some [0x05, 0x11, 0x22]\<rparr>
      [0x05, 0x01, 0x02, 0x03] 4 2 = Inr ?r"
    by (simp add: exchange_eval)
  from exchange_overwrites_request_in_place
         [of probe64 "\<lparr>write_res = 65, read_back = Some [0x05, 0x11, 0x22]\<rparr>"
             "[0x05, 0x01, 0x02, 0x03]" 4 2] run
  have "length (data_out ?r) = length [0x05, 0x01, 0x02, 0x03 :: u8] \<and>
        hd [0x05, 0x11, 0x22 :: u8] = [0x05, 0x01, 0x02, 0x03] ! 0"
    by auto
  with run show ?thesis by simp
qed

lemma dbg_close_back_to_back:
  "dbg_close (dbg_close w) = dbg_close w \<and>
   (debugger_fd (fst w) \<notin> open_fds (snd w) \<longrightarrow> dbg_close w = w)"
  by (cases w) (simp add: dbg_close_def sys_close_def)

text \<open>
  C8. \<open>dbg_close\<close> is not a safe no-op on a session that is already closed. It tests
  \<open>debugger_fd\<close> against 0, while the value that marks a session without a device is
  \<open>-1\<close>, and it leaves \<open>debugger_fd\<close> as it is after closing. So every call passes
  the descriptor to \<open>close\<close>, also on a session that was never opened, and when the
  descriptor number has been handed out again in between, the second call releases a
  file that is not the device: below, descriptor 3 is released twice.
\<close>

theorem close_after_reuse_releases_again:
  "dbg_close (probe64, \<lparr>open_fds = {0, 1, 2, 3}, released = []\<rparr>)
     = (probe64, \<lparr>open_fds = {0, 1, 2}, released = [3]\<rparr>) \<and>
   sys_open \<lparr>open_fds = {0, 1, 2}, released = [3]\<rparr>
     = (3, \<lparr>open_fds = {0, 1, 2, 3}, released = [3]\<rparr>) \<and>
   dbg_close (probe64, \<lparr>open_fds = {0, 1, 2, 3}, released = [3]\<rparr>)
     = (probe64, \<lparr>open_fds = {0, 1, 2}, released = [3, 3]\<rparr>) \<and>
   debugger_fd (session_init 1024) \<noteq> 0"
proof -
  have a: "dbg_close (probe64, \<lparr>open_fds = {0, 1, 2, 3}, released = []\<rparr>)
     = (probe64, \<lparr>open_fds = {0, 1, 2}, released = [3]\<rparr>)"
    by (auto simp: dbg_close_def sys_close_def probe64_def)
  have "[0..<card {0, 1, 2 :: int} + 1] = [0, 1, 2, 3]"
    by (simp add: upt_rec)
  then have b: "sys_open \<lparr>open_fds = {0, 1, 2}, released = [3]\<rparr>
     = (3, \<lparr>open_fds = {0, 1, 2, 3}, released = [3]\<rparr>)"
    by (auto simp: sys_open_def lowest_free_def Let_def)
  have c: "dbg_close (probe64, \<lparr>open_fds = {0, 1, 2, 3}, released = [3]\<rparr>)
     = (probe64, \<lparr>open_fds = {0, 1, 2}, released = [3, 3]\<rparr>)"
    by (auto simp: dbg_close_def sys_close_def probe64_def)
  have d: "debugger_fd (session_init 1024) \<noteq> 0" by (simp add: debugger_fd_init)
  from a b c d show ?thesis by (intro conjI)
qed

end
